theory Spec2Isabelle
  imports Complex_Main
begin

section \<open>Data model (types.ts)\<close>

text \<open>
  JavaScript numbers are modelled as unbounded integers: every number the engines compute
  from integer inputs is an integer far below \<open>2^53\<close>. The two averages of a result are
  quotients and are modelled as reals.
\<close>

datatype ProcessState = NotArrived | Waiting | Running | Completed

text \<open>
  Field \<open>pid\<close> is the source's \<open>id\<close> (renamed: \<open>id\<close> is the identity function of HOL).
  \<open>priority\<close> is \<open>number | null\<close>.
\<close>

record Process =
  pid :: int
  name :: string
  arrivalTime :: int
  burstTime :: int
  priority :: "int option"
  remainingTime :: int
  color :: string
  completionTime :: int
  turnaroundTime :: int
  waitingTime :: int
  state :: ProcessState

text \<open>\<open>endT\<close> is the source's \<open>end\<close>, \<open>colorG\<close> its \<open>color\<close>.\<close>

record GanttEntry =
  processName :: string
  start :: int
  endT :: int
  colorG :: string

text \<open>\<open>algName\<close> is the source's \<open>name\<close>.\<close>

record AlgorithmResult =
  algName :: string
  ganttChart :: "GanttEntry list"
  processes :: "Process list"
  avgWaitingTime :: real
  avgTurnaroundTime :: real
  totalTime :: int

text \<open>
  One slot of the per-tick timeline: \<open>{ processName, color } | null\<close>, the pair being
  (processName, color) and \<open>None\<close> the idle tick.
\<close>

type_synonym TimelineInfo = "(string \<times> string) option"

text \<open>The object yielded by the generators, with the process objects as they are at the yield.\<close>

record TickEvent =
  time :: int
  evRunningProcess :: "Process option"
  evReadyQueue :: "Process list"
  evProcesses :: "Process list"
  eventMessage :: string

text \<open>
  The local variables of the engines. The process objects live in \<open>localProcesses\<close>; every
  other variable that holds a process object in the source (\<open>runningProcess\<close>, the elements
  of \<open>readyQueue\<close> and \<open>queue\<close>) holds its position in \<open>localProcesses\<close> here, so that a
  write through one reference is seen through the others. An engine leaves the variables it
  does not declare at their initial values. \<open>stopped\<close> records that the loop was left by
  \<open>break\<close>, \<open>console\<close> what was written by \<open>console.error\<close>, \<open>yielded\<close> the events a
  generator has produced so far, \<open>message\<close> is the generators' variable \<open>eventMessage\<close>.
\<close>

record locals =
  localProcesses :: "Process list"
  currentTime :: int
  completed :: nat
  timeline :: "TimelineInfo list"
  completedProcessIds :: "int set"
  readyQueue :: "nat list"
  runningProcess :: "nat option"
  quantumCounter :: int
  queue :: "nat list"
  lastRunningProcessId :: "int option"
  stopped :: bool
  console :: "string list"
  message :: string
  yielded :: "TickEvent list"

definition initLocals :: "Process list \<Rightarrow> locals" where
  "initLocals ps = \<lparr> localProcesses = ps, currentTime = 0, completed = 0, timeline = [],
     completedProcessIds = {}, readyQueue = [], runningProcess = None, quantumCounter = 0,
     queue = [], lastRunningProcessId = None, stopped = False, console = [],
     message = [], yielded = [] \<rparr>"

section \<open>Helpers\<close>

text \<open>
  \<open>Array.prototype.sort\<close> with a comparator is stable; \<open>sortBy\<close> is the stable insertion
  sort for a comparator that returns a number (negative: first argument first).
\<close>

fun insertBy :: "('a \<Rightarrow> 'a \<Rightarrow> int) \<Rightarrow> 'a \<Rightarrow> 'a list \<Rightarrow> 'a list" where
  "insertBy cmp x [] = [x]"
| "insertBy cmp x (y # ys) = (if cmp x y \<le> 0 then x # y # ys else y # insertBy cmp x ys)"

definition sortBy :: "('a \<Rightarrow> 'a \<Rightarrow> int) \<Rightarrow> 'a list \<Rightarrow> 'a list" where
  "sortBy cmp xs = foldr (insertBy cmp) xs []"

text \<open>\<open>Array.prototype.reduce\<close> without an initial value; the callers guard the empty array.\<close>

fun reduce :: "('a \<Rightarrow> 'a \<Rightarrow> 'a) \<Rightarrow> 'a list \<Rightarrow> 'a option" where
  "reduce f [] = None"
| "reduce f (x # xs) = Some (foldl f x xs)"

text \<open>The three assignments every engine makes when a process completes at time \<open>t\<close>.\<close>

definition commitMetrics :: "int \<Rightarrow> Process \<Rightarrow> Process" where
  "commitMetrics t p =
     (let p1 = p\<lparr>completionTime := t\<rparr>;
          p2 = p1\<lparr>turnaroundTime := completionTime p1 - arrivalTime p1\<rparr>
      in p2\<lparr>waitingTime := turnaroundTime p2 - burstTime p2\<rparr>)"

text \<open>\<open>for (let i = 0; i < k; i++) timeline.push(x)\<close>\<close>

definition pushTimes :: "int \<Rightarrow> TimelineInfo \<Rightarrow> TimelineInfo list \<Rightarrow> TimelineInfo list" where
  "pushTimes k x tline = tline @ replicate (nat k) x"

definition info :: "Process \<Rightarrow> TimelineInfo" where
  "info p = Some (name p, color p)"

text \<open>A loop whose body runs a known number of times.\<close>

fun repeatN :: "nat \<Rightarrow> ('s \<Rightarrow> 's) \<Rightarrow> 's \<Rightarrow> 's" where
  "repeatN 0 f s = s"
| "repeatN (Suc k) f s = repeatN k f (f s)"

text \<open>A loop that may run forever: \<open>None\<close> is the run that never leaves the loop.\<close>

partial_function (option) while_loop :: "('s \<Rightarrow> bool) \<Rightarrow> ('s \<Rightarrow> 's) \<Rightarrow> 's \<Rightarrow> 's option" where
  "while_loop b c s = (if b s then while_loop b c (c s) else Some s)"

declare while_loop.simps [code]

section \<open>Timeline builder\<close>

definition createEmptyResult :: "string \<Rightarrow> AlgorithmResult" where
  "createEmptyResult n = \<lparr> algName = n, ganttChart = [], processes = [],
     avgWaitingTime = 0, avgTurnaroundTime = 0, totalTime = 0 \<rparr>"

text \<open>
  The \<open>for\<close> loop of \<open>buildGanttChart\<close>: the rest of the timeline from index \<open>i\<close> on, the
  chart pushed so far and \<open>currentEntry\<close>.
\<close>

fun buildGanttChart_loop ::
  "TimelineInfo list \<Rightarrow> int \<Rightarrow> GanttEntry list \<Rightarrow> GanttEntry option \<Rightarrow> GanttEntry list" where
  "buildGanttChart_loop [] i chart cur =
     (case cur of Some e \<Rightarrow> chart @ [e] | None \<Rightarrow> chart)"
| "buildGanttChart_loop (Some (pn, c) # rest) i chart cur =
     (case cur of
        Some e \<Rightarrow>
          if processName e = pn
          then buildGanttChart_loop rest (i + 1) chart (Some (e\<lparr>endT := i + 1\<rparr>))
          else buildGanttChart_loop rest (i + 1) (chart @ [e])
                 (Some \<lparr> processName = pn, start = i, endT = i + 1, colorG = c \<rparr>)
      | None \<Rightarrow>
          buildGanttChart_loop rest (i + 1) chart
            (Some \<lparr> processName = pn, start = i, endT = i + 1, colorG = c \<rparr>))"
| "buildGanttChart_loop (None # rest) i chart cur =
     (case cur of
        Some e \<Rightarrow> buildGanttChart_loop rest (i + 1) (chart @ [e]) None
      | None \<Rightarrow> buildGanttChart_loop rest (i + 1) chart None)"

definition buildGanttChart :: "TimelineInfo list \<Rightarrow> GanttEntry list" where
  "buildGanttChart tline =
     (if length tline = 0 then [] else buildGanttChart_loop tline 0 [] None)"

section \<open>Batch engines\<close>

definition averageOf :: "(Process \<Rightarrow> int) \<Rightarrow> Process list \<Rightarrow> real" where
  "averageOf f ps = real_of_int (foldl (\<lambda>acc p. acc + f p) 0 ps) / real (length ps)"

definition mkResult :: "string \<Rightarrow> locals \<Rightarrow> int \<Rightarrow> AlgorithmResult" where
  "mkResult n s tt = \<lparr> algName = n, ganttChart = buildGanttChart (timeline s),
     processes = localProcesses s,
     avgWaitingTime = averageOf waitingTime (localProcesses s),
     avgTurnaroundTime = averageOf turnaroundTime (localProcesses s),
     totalTime = tt \<rparr>"

subsection \<open>runFCFS\<close>

definition cmpArrivalId :: "Process \<Rightarrow> Process \<Rightarrow> int" where
  "cmpArrivalId a b =
     (if arrivalTime a - arrivalTime b \<noteq> 0 then arrivalTime a - arrivalTime b else pid a - pid b)"

text \<open>The body of the \<open>forEach\<close>, for the process at position \<open>i\<close>.\<close>

definition fcfs_visit :: "locals \<Rightarrow> nat \<Rightarrow> locals" where
  "fcfs_visit s i =
     (let p = localProcesses s ! i;
          s1 = (if currentTime s < arrivalTime p
                then s\<lparr>timeline := pushTimes (arrivalTime p - currentTime s) None (timeline s),
                       currentTime := arrivalTime p\<rparr>
                else s);
          p' = commitMetrics (currentTime s1 + burstTime p) p
      in s1\<lparr>localProcesses := (localProcesses s1)[i := p'],
             timeline := pushTimes (burstTime p') (info p') (timeline s1),
             currentTime := completionTime p'\<rparr>)"

definition runFCFS :: "Process list \<Rightarrow> AlgorithmResult" where
  "runFCFS ps =
     (if length ps = 0 then createEmptyResult ''First-Come, First-Served (FCFS)''
      else
        let s = foldl fcfs_visit (initLocals (sortBy cmpArrivalId ps)) [0..<length ps]
        in mkResult ''First-Come, First-Served (FCFS)'' s (currentTime s))"

subsection \<open>runRoundRobin\<close>

definition cmpIdAt :: "Process list \<Rightarrow> nat \<Rightarrow> nat \<Rightarrow> int" where
  "cmpIdAt ps i j = pid (ps ! i) - pid (ps ! j)"

definition indicesWhere :: "(Process \<Rightarrow> bool) \<Rightarrow> Process list \<Rightarrow> nat list" where
  "indicesWhere P ps = filter (\<lambda>i. P (ps ! i)) [0..<length ps]"

text \<open>Step 1: the running process finished, or its quantum expired.\<close>

definition rr_retire :: "int \<Rightarrow> locals \<Rightarrow> locals" where
  "rr_retire timeQuantum s =
     (case runningProcess s of
        None \<Rightarrow> s
      | Some r \<Rightarrow>
          if remainingTime (localProcesses s ! r) = 0
          then s\<lparr>localProcesses :=
                    (localProcesses s)[r := commitMetrics (currentTime s) (localProcesses s ! r)],
                 completed := completed s + 1,
                 runningProcess := None\<rparr>
          else if quantumCounter s = timeQuantum
          then s\<lparr>readyQueue := readyQueue s @ [r], runningProcess := None\<rparr>
          else s)"

text \<open>Step 2: the processes that arrive now join the queue, by ascending id.\<close>

definition rr_arrivals :: "locals \<Rightarrow> locals" where
  "rr_arrivals s =
     s\<lparr>readyQueue := readyQueue s @
         sortBy (cmpIdAt (localProcesses s))
           (indicesWhere (\<lambda>p. arrivalTime p = currentTime s) (localProcesses s))\<rparr>"

text \<open>Step 3: an idle CPU takes the front of the queue.\<close>

definition rr_dispatch :: "locals \<Rightarrow> locals" where
  "rr_dispatch s =
     (if runningProcess s = None \<and> length (readyQueue s) > 0
      then s\<lparr>runningProcess := Some (hd (readyQueue s)),
             readyQueue := tl (readyQueue s),
             quantumCounter := 0\<rparr>
      else s)"

text \<open>Step 4: one time unit of execution, or an idle slot.\<close>

definition rr_execute :: "locals \<Rightarrow> locals" where
  "rr_execute s =
     (case runningProcess s of
        Some r \<Rightarrow>
          let rp = localProcesses s ! r
          in s\<lparr>timeline := timeline s @ [info rp],
                localProcesses := (localProcesses s)[r := rp\<lparr>remainingTime := remainingTime rp - 1\<rparr>],
                quantumCounter := quantumCounter s + 1\<rparr>
      | None \<Rightarrow> s\<lparr>timeline := timeline s @ [None]\<rparr>)"

text \<open>Step 5: the clock advances; past the ceiling the loop is left by \<open>break\<close>.\<close>

definition rr_advance :: "int \<Rightarrow> locals \<Rightarrow> locals" where
  "rr_advance limit s =
     (let s1 = s\<lparr>currentTime := currentTime s + 1\<rparr>
      in if currentTime s1 > limit
         then s1\<lparr>console := console s1 @
                    [''Breaking Round Robin loop, possible infinite loop detected.''],
                 stopped := True\<rparr>
         else s1)"

definition rr_body :: "int \<Rightarrow> locals \<Rightarrow> locals" where
  "rr_body timeQuantum s =
     rr_advance 20000 (rr_execute (rr_dispatch (rr_arrivals (rr_retire timeQuantum s))))"

definition rr_cond :: "nat \<Rightarrow> locals \<Rightarrow> bool" where
  "rr_cond n s \<longleftrightarrow> completed s < n \<and> \<not> stopped s"

definition rr_run :: "Process list \<Rightarrow> int \<Rightarrow> locals option" where
  "rr_run ps timeQuantum = while_loop (rr_cond (length ps)) (rr_body timeQuantum) (initLocals ps)"

definition runRoundRobin :: "Process list \<Rightarrow> int \<Rightarrow> AlgorithmResult option" where
  "runRoundRobin ps timeQuantum =
     (if length ps = 0 then Some (createEmptyResult ''Round Robin'')
      else map_option (\<lambda>s. mkResult ''Round Robin'' s (currentTime s)) (rr_run ps timeQuantum))"

subsection \<open>runRoundRobin, second listing of the file\<close>

text \<open>
  The file holds a second listing of the engines (from line 803 on). Its Round Robin
  enqueues the arrivals first (and only those with \<open>remainingTime > 0\<close>), then retires the
  running process, resetting the quantum counter; its ceiling is 10000 and its \<open>totalTime\<close>
  is \<open>currentTime - 1\<close>.
\<close>

definition rr2_arrivals :: "locals \<Rightarrow> locals" where
  "rr2_arrivals s =
     s\<lparr>readyQueue := readyQueue s @
         sortBy (cmpIdAt (localProcesses s))
           (indicesWhere (\<lambda>p. arrivalTime p = currentTime s \<and> remainingTime p > 0)
              (localProcesses s))\<rparr>"

definition rr2_retire :: "int \<Rightarrow> locals \<Rightarrow> locals" where
  "rr2_retire timeQuantum s =
     (case runningProcess s of
        None \<Rightarrow> s
      | Some r \<Rightarrow>
          if remainingTime (localProcesses s ! r) = 0
          then s\<lparr>localProcesses :=
                    (localProcesses s)[r := commitMetrics (currentTime s) (localProcesses s ! r)],
                 completed := completed s + 1,
                 runningProcess := None,
                 quantumCounter := 0\<rparr>
          else if quantumCounter s = timeQuantum
          then s\<lparr>readyQueue := readyQueue s @ [r], runningProcess := None,
                 quantumCounter := 0\<rparr>
          else s)"

definition rr2_body :: "int \<Rightarrow> locals \<Rightarrow> locals" where
  "rr2_body timeQuantum s =
     rr_advance 10000 (rr_execute (rr_dispatch (rr2_retire timeQuantum (rr2_arrivals s))))"

definition rr2_run :: "Process list \<Rightarrow> int \<Rightarrow> locals option" where
  "rr2_run ps timeQuantum =
     while_loop (rr_cond (length ps)) (rr2_body timeQuantum) (initLocals ps)"

definition runRoundRobin2 :: "Process list \<Rightarrow> int \<Rightarrow> AlgorithmResult option" where
  "runRoundRobin2 ps timeQuantum =
     (if length ps = 0 then Some (createEmptyResult ''Round Robin'')
      else map_option (\<lambda>s. mkResult ''Round Robin'' s (currentTime s - 1))
             (rr2_run ps timeQuantum))"

subsection \<open>runSJF and runPriorityNonPreemptive\<close>

text \<open>The callback of the \<open>reduce\<close> in \<open>runSJF\<close>, on positions in \<open>localProcesses\<close>.\<close>

definition sjf_shorter :: "Process list \<Rightarrow> nat \<Rightarrow> nat \<Rightarrow> nat" where
  "sjf_shorter ps prev cur =
     (if burstTime (ps ! prev) < burstTime (ps ! cur) then prev
      else if burstTime (ps ! prev) > burstTime (ps ! cur) then cur
      else if arrivalTime (ps ! prev) < arrivalTime (ps ! cur) then prev else cur)"

text \<open>
  \<open>priority ?? Infinity\<close>: \<open>None\<close> stands for \<open>Infinity\<close>. \<open>ltInf a b\<close> is \<open>a < b\<close> on these
  values; \<open>===\<close> on them is equality.
\<close>

fun ltInf :: "int option \<Rightarrow> int option \<Rightarrow> bool" where
  "ltInf None b = False"
| "ltInf (Some x) None = True"
| "ltInf (Some x) (Some y) = (x < y)"


text \<open>
  From \<open>const currentProcess = ...\<close> to the end of the loop body, the same text in both
  engines: the selected process runs to completion.
\<close>

definition np_execute :: "nat \<Rightarrow> locals \<Rightarrow> locals" where
  "np_execute i s =
     (let currentProcess = localProcesses s ! i;
          s1 = (if currentTime s < arrivalTime currentProcess
                then s\<lparr>timeline := pushTimes (arrivalTime currentProcess - currentTime s) None
                                      (timeline s),
                       currentTime := arrivalTime currentProcess\<rparr>
                else s);
          s2 = s1\<lparr>timeline := pushTimes (burstTime currentProcess) (info currentProcess)
                                 (timeline s1)\<rparr>;
          executionEndTime = currentTime s2 + burstTime currentProcess
      in s2\<lparr>localProcesses :=
               (localProcesses s2)[i := commitMetrics executionEndTime currentProcess],
             completedProcessIds := insert (pid currentProcess) (completedProcessIds s2),
             completed := completed s2 + 1,
             currentTime := executionEndTime\<rparr>)"

definition np_idle :: "locals \<Rightarrow> locals" where
  "np_idle s = s\<lparr>timeline := timeline s @ [None], currentTime := currentTime s + 1\<rparr>"

definition np_ready :: "locals \<Rightarrow> nat list" where
  "np_ready s =
     indicesWhere (\<lambda>p. arrivalTime p \<le> currentTime s \<and> pid p \<notin> completedProcessIds s)
       (localProcesses s)"

definition np_body :: "(Process list \<Rightarrow> nat \<Rightarrow> nat \<Rightarrow> nat) \<Rightarrow> locals \<Rightarrow> locals" where
  "np_body pick s =
     (let readyQueue = np_ready s;
          chosen = (if length readyQueue > 0 then reduce (pick (localProcesses s)) readyQueue
                    else None)
      in case chosen of None \<Rightarrow> np_idle s | Some i \<Rightarrow> np_execute i s)"

definition np_run :: "(Process list \<Rightarrow> nat \<Rightarrow> nat \<Rightarrow> nat) \<Rightarrow> Process list \<Rightarrow> locals option" where
  "np_run pick ps = while_loop (\<lambda>s. completed s < length ps) (np_body pick) (initLocals ps)"

definition runSJF :: "Process list \<Rightarrow> AlgorithmResult option" where
  "runSJF ps =
     (if length ps = 0 then Some (createEmptyResult ''Non-Preemptive SJF'')
      else map_option (\<lambda>s. mkResult ''Non-Preemptive SJF'' s (currentTime s))
             (np_run sjf_shorter ps))"


subsection \<open>runSRTF and runPriorityPreemptive\<close>

text \<open>
  The \<open>forEach\<close> that looks for the process to run keeps the index found so far (\<open>None\<close>
  for -1) and the two minima (\<open>None\<close> for \<open>Infinity\<close>). \<open>key\<close> is \<open>remainingTime\<close> in
  \<open>runSRTF\<close> and \<open>priority ?? Infinity\<close> in \<open>runPriorityPreemptive\<close>.
\<close>

definition scan_visit ::
  "(Process \<Rightarrow> int option) \<Rightarrow> Process list \<Rightarrow> int \<Rightarrow>
   nat option \<times> int option \<times> int option \<Rightarrow> nat \<Rightarrow> nat option \<times> int option \<times> int option" where
  "scan_visit key ps t acc i =
     (case acc of (found, minKey, minArrivalTime) \<Rightarrow>
        let p = ps ! i
        in if arrivalTime p \<le> t \<and> remainingTime p > 0
           then if ltInf (key p) minKey
                then (Some i, key p, Some (arrivalTime p))
                else if key p = minKey
                then if ltInf (Some (arrivalTime p)) minArrivalTime
                     then (Some i, minKey, Some (arrivalTime p))
                     else acc
                else acc
           else acc)"

definition scan :: "(Process \<Rightarrow> int option) \<Rightarrow> Process list \<Rightarrow> int \<Rightarrow> nat option" where
  "scan key ps t = fst (foldl (scan_visit key ps t) (None, None, None) [0..<length ps])"

definition p_execute :: "nat \<Rightarrow> locals \<Rightarrow> locals" where
  "p_execute i s =
     (let currentProcess = localProcesses s ! i;
          cp1 = currentProcess\<lparr>remainingTime := remainingTime currentProcess - 1\<rparr>;
          s1 = s\<lparr>timeline := timeline s @ [info currentProcess],
                 localProcesses := (localProcesses s)[i := cp1],
                 currentTime := currentTime s + 1\<rparr>
      in if remainingTime cp1 = 0
         then s1\<lparr>completed := completed s1 + 1,
                 localProcesses := (localProcesses s1)[i := commitMetrics (currentTime s1) cp1]\<rparr>
         else s1)"

definition p_body :: "(Process \<Rightarrow> int option) \<Rightarrow> locals \<Rightarrow> locals" where
  "p_body key s =
     (case scan key (localProcesses s) (currentTime s) of
        None \<Rightarrow> np_idle s
      | Some i \<Rightarrow> p_execute i s)"

definition p_run :: "(Process \<Rightarrow> int option) \<Rightarrow> Process list \<Rightarrow> locals option" where
  "p_run key ps = while_loop (\<lambda>s. completed s \<noteq> length ps) (p_body key) (initLocals ps)"

definition keyRemaining :: "Process \<Rightarrow> int option" where
  "keyRemaining p = Some (remainingTime p)"

definition runSRTF :: "Process list \<Rightarrow> AlgorithmResult option" where
  "runSRTF ps =
     (if length ps = 0 then Some (createEmptyResult ''Preemptive SJF (SRTF)'')
      else map_option (\<lambda>s. mkResult ''Preemptive SJF (SRTF)'' s (currentTime s))
             (p_run keyRemaining ps))"


subsection \<open>runFCFS, runSJF and runPriorityNonPreemptive, second listing\<close>



text \<open>
  \<open>runSJF\<close> and \<open>runPriorityNonPreemptive\<close> of the second listing keep the completed
  processes in \<open>isCompleted = new Array(maxId + 1).fill(false)\<close>, read and written at
  \<open>p.id\<close>. The constructor throws a \<open>RangeError\<close> unless its argument is an array length,
  an integer from 0 to \<open>2^32 - 1\<close>. After that, \<open>isCompleted[id]\<close> is truthy exactly for the
  ids that were set to \<open>true\<close>, also for an id that is not an index of the array (the
  assignment adds a property): the field \<open>completedProcessIds\<close> holds these ids.
\<close>

datatype error = RangeError

definition maxId :: "Process list \<Rightarrow> int" where
  "maxId ps = (if length ps > 0 then Max (set (map pid ps)) else 0)"

definition arrayLength :: "int \<Rightarrow> bool" where
  "arrayLength len \<longleftrightarrow> 0 \<le> len \<and> len \<le> 4294967295"

text \<open>
  The \<open>forEach\<close> that looks for the process to run, as in \<open>scan_visit\<close>, with the test
  \<open>p.arrivalTime <= currentTime && !isCompleted[p.id]\<close>. \<open>key\<close> is \<open>burstTime\<close> in
  \<open>runSJF\<close> and \<open>priority ?? Infinity\<close> in \<open>runPriorityNonPreemptive\<close>.
\<close>

definition np2_visit ::
  "(Process \<Rightarrow> int option) \<Rightarrow> int set \<Rightarrow> Process list \<Rightarrow> int \<Rightarrow>
   nat option \<times> int option \<times> int option \<Rightarrow> nat \<Rightarrow> nat option \<times> int option \<times> int option" where
  "np2_visit key isCompleted ps t acc i =
     (case acc of (found, minKey, minArrivalTime) \<Rightarrow>
        let p = ps ! i
        in if arrivalTime p \<le> t \<and> pid p \<notin> isCompleted
           then if ltInf (key p) minKey
                then (Some i, key p, Some (arrivalTime p))
                else if key p = minKey
                then if ltInf (Some (arrivalTime p)) minArrivalTime
                     then (Some i, minKey, Some (arrivalTime p))
                     else acc
                else acc
           else acc)"

definition np2_select :: "(Process \<Rightarrow> int option) \<Rightarrow> locals \<Rightarrow> nat option" where
  "np2_select key s =
     fst (foldl (np2_visit key (completedProcessIds s) (localProcesses s) (currentTime s))
            (None, None, None) [0..<length (localProcesses s)])"

definition keyBurst :: "Process \<Rightarrow> int option" where
  "keyBurst p = Some (burstTime p)"


definition np2_body ::
  "(Process \<Rightarrow> int option) \<Rightarrow> (nat \<Rightarrow> locals \<Rightarrow> locals) \<Rightarrow> locals \<Rightarrow> locals" where
  "np2_body key exec s =
     (case np2_select key s of None \<Rightarrow> np_idle s | Some i \<Rightarrow> exec i s)"

definition np2_run ::
  "(Process \<Rightarrow> int option) \<Rightarrow> (nat \<Rightarrow> locals \<Rightarrow> locals) \<Rightarrow> Process list \<Rightarrow> locals option" where
  "np2_run key exec ps =
     while_loop (\<lambda>s. completed s < length ps) (np2_body key exec) (initLocals ps)"

definition runSJF2 :: "Process list \<Rightarrow> (error + AlgorithmResult) option" where
  "runSJF2 ps =
     (if length ps = 0 then Some (Inr (createEmptyResult ''Non-Preemptive SJF''))
      else if \<not> arrayLength (maxId ps + 1) then Some (Inl RangeError)
      else map_option (\<lambda>s. Inr (mkResult ''Non-Preemptive SJF'' s (currentTime s)))
             (np2_run keyBurst np_execute ps))"


section \<open>Stepwise engines (generators)\<close>

text \<open>
  A generator is modelled by the list of the events it yields until it returns; \<open>None\<close> is
  the generator that never returns.
\<close>

definition updateProcessStates ::
  "Process list \<Rightarrow> Process option \<Rightarrow> Process list \<Rightarrow> int \<Rightarrow> Process list" where
  "updateProcessStates ps rp rq t =
     map (\<lambda>p.
       if state p = Completed then p
       else if (case rp of Some r \<Rightarrow> pid p = pid r | None \<Rightarrow> False) then p\<lparr>state := Running\<rparr>
       else if list_ex (\<lambda>q. pid q = pid p) rq then p\<lparr>state := Waiting\<rparr>
       else if arrivalTime p > t then p\<lparr>state := NotArrived\<rparr>
       else if remainingTime p > 0 then p\<lparr>state := Waiting\<rparr>
       else p) ps"

definition objs :: "locals \<Rightarrow> nat list \<Rightarrow> Process list" where
  "objs s is = map (\<lambda>i. localProcesses s ! i) is"

definition obj :: "locals \<Rightarrow> nat option \<Rightarrow> Process option" where
  "obj s r = map_option (\<lambda>i. localProcesses s ! i) r"

text \<open>\<open>updateProcessStates(localProcesses, rp, rq, t)\<close> on the objects behind the positions.\<close>

definition states :: "locals \<Rightarrow> nat option \<Rightarrow> nat list \<Rightarrow> int \<Rightarrow> Process list" where
  "states s rp rq t = updateProcessStates (localProcesses s) (obj s rp) (objs s rq) t"

text \<open>\<open>yield { time, runningProcess, readyQueue, processes, eventMessage }\<close>\<close>

definition emit :: "int \<Rightarrow> nat option \<Rightarrow> nat list \<Rightarrow> Process list \<Rightarrow> string \<Rightarrow> locals \<Rightarrow> locals" where
  "emit t rp rq snapshot msg s =
     s\<lparr>yielded := yielded s @
         [\<lparr> time = t, evRunningProcess = obj s rp, evReadyQueue = objs s rq,
            evProcesses = snapshot, eventMessage = msg \<rparr>]\<rparr>"

fun join :: "string \<Rightarrow> string list \<Rightarrow> string" where
  "join sep [] = []"
| "join sep [x] = x"
| "join sep (x # y # ys) = x @ sep @ join sep (y # ys)"

text \<open>\<open>String.prototype.trim\<close>, on the white space of ASCII.\<close>

definition isSpace :: "char \<Rightarrow> bool" where
  "isSpace c \<longleftrightarrow> c \<in> {CHR '' '', CHR 0x09, CHR 0x0A, CHR 0x0B, CHR 0x0C, CHR 0x0D}"

definition trim :: "string \<Rightarrow> string" where
  "trim str = rev (dropWhile isSpace (rev (dropWhile isSpace str)))"

text \<open>The note about the processes that arrive at the current time, or the empty string.\<close>

definition arrivalNote :: "locals \<Rightarrow> string" where
  "arrivalNote s =
     (let newlyArrived = filter (\<lambda>p. arrivalTime p = currentTime s) (localProcesses s)
      in if length newlyArrived > 0
         then join '', '' (map name newlyArrived) @ '' arrive'' @
              (if length newlyArrived > 1 then [] else ''s'') @ ''. ''
         else [])"

definition decRemaining :: "nat \<Rightarrow> locals \<Rightarrow> locals" where
  "decRemaining i s =
     s\<lparr>localProcesses := (localProcesses s)
         [i := (localProcesses s ! i)\<lparr>remainingTime := remainingTime (localProcesses s ! i) - 1\<rparr>]\<rparr>"

text \<open>Completion in a generator: the metrics and \<open>state = 'completed'\<close>.\<close>

definition complete :: "nat \<Rightarrow> int \<Rightarrow> locals \<Rightarrow> locals" where
  "complete i t s =
     s\<lparr>localProcesses := (localProcesses s)
          [i := (commitMetrics t (localProcesses s ! i))\<lparr>state := Completed\<rparr>],
       completed := completed s + 1\<rparr>"

definition finalEvent :: "locals \<Rightarrow> locals" where
  "finalEvent s =
     emit (currentTime s) None [] (states s None [] (currentTime s)) ''All processes complete.'' s"

subsection \<open>simulateFCFS\<close>

definition sfcfs_idle :: "locals \<Rightarrow> locals" where
  "sfcfs_idle s =
     (emit (currentTime s) None [] (states s None [] (currentTime s)) ''CPU is idle.'' s)
       \<lparr>currentTime := currentTime s + 1\<rparr>"

definition sfcfs_tick :: "nat \<Rightarrow> locals \<Rightarrow> locals" where
  "sfcfs_tick i s =
     (let s1 = decRemaining i s;
          s2 = emit (currentTime s1) (Some i) (tl (queue s1))
                 (states s1 (Some i) (tl (queue s1)) (currentTime s1)) (message s1) s1
      in s2\<lparr>message := [], currentTime := currentTime s2 + 1\<rparr>)"

text \<open>
  The inner \<open>while (currentTime < currentProcess.arrivalTime)\<close> adds 1 to the clock each
  time, so it runs \<open>arrivalTime - currentTime\<close> times when that is positive; the \<open>for\<close>
  loop runs \<open>burstTime\<close> times.
\<close>

definition sfcfs_body :: "locals \<Rightarrow> locals" where
  "sfcfs_body s =
     (case queue s of
        [] \<Rightarrow> s\<lparr>stopped := True\<rparr>
      | i # rest \<Rightarrow>
          let currentProcess = localProcesses s ! i;
              s1 = repeatN (nat (arrivalTime currentProcess - currentTime s)) sfcfs_idle s;
              s2 = s1\<lparr>message := name currentProcess @ '' arrives. CPU starts running '' @
                                   name currentProcess @ ''.''\<rparr>;
              s3 = repeatN (nat (burstTime currentProcess)) (sfcfs_tick i) s2;
              s4 = (complete i (currentTime s3) s3)\<lparr>queue := tl (queue s3)\<rparr>
          in emit (currentTime s4 - 1) (Some i) []
               (states s4 None (queue s4) (currentTime s4 - 1))
               (name (localProcesses s4 ! i) @ '' completes execution.'') s4)"

definition simulateFCFS :: "Process list \<Rightarrow> TickEvent list option" where
  "simulateFCFS ps =
     (if length ps = 0 then Some []
      else map_option (\<lambda>s. yielded (finalEvent s))
             (while_loop (\<lambda>s. completed s < length ps \<and> \<not> stopped s) sfcfs_body
                ((initLocals (sortBy cmpArrivalId ps))\<lparr>queue := [0..<length ps]\<rparr>)))"

subsection \<open>simulateSJF and simulatePriorityNonPreemptive\<close>

definition sim_sjf_shorter :: "Process list \<Rightarrow> nat \<Rightarrow> nat \<Rightarrow> nat" where
  "sim_sjf_shorter ps prev cur =
     (if burstTime (ps ! prev) < burstTime (ps ! cur) then prev
      else if burstTime (ps ! prev) > burstTime (ps ! cur) then cur
      else if arrivalTime (ps ! prev) < arrivalTime (ps ! cur) then prev
      else cur)"

definition sim_prio_higher :: "Process list \<Rightarrow> nat \<Rightarrow> nat \<Rightarrow> nat" where
  "sim_prio_higher ps prev cur =
     (let prevPriority = priority (ps ! prev); curPriority = priority (ps ! cur)
      in if ltInf prevPriority curPriority then prev
         else if ltInf curPriority prevPriority then cur
         else if arrivalTime (ps ! prev) < arrivalTime (ps ! cur) then prev
         else cur)"

definition snp_tick :: "nat \<Rightarrow> locals \<Rightarrow> locals" where
  "snp_tick i s =
     (let s1 = decRemaining i s;
          currentReadyQueue =
            indicesWhere (\<lambda>p. arrivalTime p \<le> currentTime s1 \<and> state p \<noteq> Completed \<and>
                               pid p \<noteq> pid (localProcesses s1 ! i)) (localProcesses s1);
          s2 = emit (currentTime s1) (Some i) currentReadyQueue
                 (states s1 (Some i) currentReadyQueue (currentTime s1)) (message s1) s1
      in s2\<lparr>message := [], currentTime := currentTime s2 + 1\<rparr>)"

definition snp_idle :: "locals \<Rightarrow> locals" where
  "snp_idle s =
     (let s1 = (if message s = [] then s\<lparr>message := ''CPU is idle.''\<rparr> else s)
      in (emit (currentTime s1) None [] (states s1 None [] (currentTime s1)) (message s1) s1)
           \<lparr>currentTime := currentTime s1 + 1\<rparr>)"

definition snp_execute :: "string \<Rightarrow> nat \<Rightarrow> locals \<Rightarrow> locals" where
  "snp_execute why i s =
     (let processToRun = localProcesses s ! i;
          s1 = s\<lparr>message := message s @ ''CPU selects '' @ name processToRun @ why\<rparr>;
          s2 = repeatN (nat (burstTime processToRun)) (snp_tick i) s1;
          s3 = complete i (currentTime s2) s2
      in emit (currentTime s3 - 1) (Some i) [] (states s3 None [] (currentTime s3 - 1))
           (name (localProcesses s3 ! i) @ '' completes execution.'') s3)"

text \<open>\<open>reduce\<close> gives \<open>None\<close> exactly when \<open>readyQueue.length === 0\<close>.\<close>

definition snp_body :: "(Process list \<Rightarrow> nat \<Rightarrow> nat \<Rightarrow> nat) \<Rightarrow> string \<Rightarrow> locals \<Rightarrow> locals" where
  "snp_body pick why s =
     (let s0 = s\<lparr>message := arrivalNote s\<rparr>;
          readyQueue = indicesWhere (\<lambda>p. arrivalTime p \<le> currentTime s0 \<and> state p \<noteq> Completed)
                         (localProcesses s0)
      in case reduce (pick (localProcesses s0)) readyQueue of
           None \<Rightarrow> snp_idle s0
         | Some i \<Rightarrow> snp_execute why i s0)"

definition snp_run ::
  "(Process list \<Rightarrow> nat \<Rightarrow> nat \<Rightarrow> nat) \<Rightarrow> string \<Rightarrow> Process list \<Rightarrow> TickEvent list option" where
  "snp_run pick why ps =
     (if length ps = 0 then Some []
      else map_option (\<lambda>s. yielded (finalEvent s))
             (while_loop (\<lambda>s. completed s < length ps) (snp_body pick why) (initLocals ps)))"

definition simulateSJF :: "Process list \<Rightarrow> TickEvent list option" where
  "simulateSJF ps = snp_run sim_sjf_shorter '' (shortest job).'' ps"

definition simulatePriorityNonPreemptive :: "Process list \<Rightarrow> TickEvent list option" where
  "simulatePriorityNonPreemptive ps = snp_run sim_prio_higher '' (highest priority).'' ps"

subsection \<open>simulateSRTF and simulatePriorityPreemptive\<close>

definition sim_srtf_shorter :: "Process list \<Rightarrow> nat \<Rightarrow> nat \<Rightarrow> nat" where
  "sim_srtf_shorter ps prev cur =
     (if remainingTime (ps ! prev) < remainingTime (ps ! cur) then prev
      else if remainingTime (ps ! prev) > remainingTime (ps ! cur) then cur
      else if arrivalTime (ps ! prev) < arrivalTime (ps ! cur) then prev
      else cur)"

definition sp_announce :: "string \<Rightarrow> nat \<Rightarrow> locals \<Rightarrow> locals" where
  "sp_announce why i s =
     (let runningProcess = localProcesses s ! i
      in if lastRunningProcessId s \<noteq> Some (pid runningProcess)
         then (case find (\<lambda>p. Some (pid p) = lastRunningProcessId s) (localProcesses s) of
                 Some lastProcess \<Rightarrow>
                   if remainingTime lastProcess > 0
                   then s\<lparr>message := message s @ name runningProcess @ '' preempts '' @
                                        name lastProcess @ why\<rparr>
                   else s\<lparr>message := message s @ ''CPU starts running '' @
                                        name runningProcess @ ''.''\<rparr>
               | None \<Rightarrow> s\<lparr>message := message s @ ''CPU starts running '' @
                                        name runningProcess @ ''.''\<rparr>)
         else s)"

definition sp_execute :: "nat \<Rightarrow> locals \<Rightarrow> locals" where
  "sp_execute i s =
     (let s1 = decRemaining i s
      in if remainingTime (localProcesses s1 ! i) = 0
         then let s2 = s1\<lparr>completed := completed s1 + 1\<rparr>;
                  s3 = s2\<lparr>localProcesses := (localProcesses s2)
                          [i := (commitMetrics (currentTime s2 + 1) (localProcesses s2 ! i))
                                  \<lparr>state := Completed\<rparr>]\<rparr>
              in s3\<lparr>message := message s3 @ '' '' @ name (localProcesses s3 ! i) @
                                  '' completes execution.''\<rparr>
         else s1)"

definition sp_yield :: "nat option \<Rightarrow> nat list \<Rightarrow> locals \<Rightarrow> locals" where
  "sp_yield rp rq s =
     (let others = (case rp of
                      Some i \<Rightarrow> filter (\<lambda>j. pid (localProcesses s ! j) \<noteq> pid (localProcesses s ! i)) rq
                    | None \<Rightarrow> rq);
          s1 = emit (currentTime s) rp others (states s rp others (currentTime s))
                 (trim (message s)) s
      in s1\<lparr>lastRunningProcessId := map_option (\<lambda>i. pid (localProcesses s1 ! i)) rp,
             currentTime := currentTime s1 + 1\<rparr>)"

definition sp_body :: "(Process list \<Rightarrow> nat \<Rightarrow> nat \<Rightarrow> nat) \<Rightarrow> string \<Rightarrow> locals \<Rightarrow> locals" where
  "sp_body pick why s =
     (let s0 = s\<lparr>message := arrivalNote s\<rparr>;
          readyQueue = indicesWhere (\<lambda>p. arrivalTime p \<le> currentTime s0 \<and> remainingTime p > 0)
                         (localProcesses s0)
      in case reduce (pick (localProcesses s0)) readyQueue of
           Some i \<Rightarrow> sp_yield (Some i) readyQueue (sp_execute i (sp_announce why i s0))
         | None \<Rightarrow> sp_yield None readyQueue (s0\<lparr>message := message s0 @ ''CPU is idle.''\<rparr>))"

definition sp_run ::
  "(Process list \<Rightarrow> nat \<Rightarrow> nat \<Rightarrow> nat) \<Rightarrow> string \<Rightarrow> Process list \<Rightarrow> TickEvent list option" where
  "sp_run pick why ps =
     (if length ps = 0 then Some []
      else map_option (\<lambda>s. yielded (finalEvent s))
             (while_loop (\<lambda>s. completed s < length ps) (sp_body pick why) (initLocals ps)))"

definition simulateSRTF :: "Process list \<Rightarrow> TickEvent list option" where
  "simulateSRTF ps = sp_run sim_srtf_shorter '' (shorter remaining time).'' ps"

definition simulatePriorityPreemptive :: "Process list \<Rightarrow> TickEvent list option" where
  "simulatePriorityPreemptive ps = sp_run sim_prio_higher '' (higher priority).'' ps"

subsection \<open>simulateRoundRobin\<close>

definition srr_retire :: "int \<Rightarrow> locals \<Rightarrow> locals" where
  "srr_retire timeQuantum s =
     (case runningProcess s of
        None \<Rightarrow> s
      | Some r \<Rightarrow>
          if remainingTime (localProcesses s ! r) = 0
          then s\<lparr>message := message s @ name (localProcesses s ! r) @ '' completes execution. '',
                 completed := completed s + 1,
                 localProcesses := (localProcesses s)
                   [r := commitMetrics (currentTime s) ((localProcesses s ! r)\<lparr>state := Completed\<rparr>)],
                 runningProcess := None\<rparr>
          else if quantumCounter s = timeQuantum
          then s\<lparr>message := message s @ ''Time quantum for '' @ name (localProcesses s ! r) @
                              '' expires. Moved to back of queue. '',
                 readyQueue := readyQueue s @ [r],
                 runningProcess := None\<rparr>
          else s)"

definition srr_arrivals :: "locals \<Rightarrow> locals" where
  "srr_arrivals s =
     (let newlyArrived = indicesWhere (\<lambda>p. arrivalTime p = currentTime s) (localProcesses s)
      in if length newlyArrived > 0
         then s\<lparr>message := message s @ arrivalNote s,
                readyQueue := readyQueue s @ sortBy (cmpIdAt (localProcesses s)) newlyArrived\<rparr>
         else s)"

definition srr_dispatch :: "locals \<Rightarrow> locals" where
  "srr_dispatch s =
     (if runningProcess s = None \<and> length (readyQueue s) > 0
      then s\<lparr>runningProcess := Some (hd (readyQueue s)),
             readyQueue := tl (readyQueue s),
             message := message s @ ''CPU takes '' @ name (localProcesses s ! hd (readyQueue s)) @
                          '' from queue.'',
             quantumCounter := 0\<rparr>
      else s)"

definition srr_execute :: "locals \<Rightarrow> locals" where
  "srr_execute s =
     (case runningProcess s of
        Some r \<Rightarrow> (decRemaining r s)\<lparr>quantumCounter := quantumCounter s + 1\<rparr>
      | None \<Rightarrow> if message s = [] then s\<lparr>message := ''CPU is idle.''\<rparr> else s)"

definition srr_yield :: "locals \<Rightarrow> locals" where
  "srr_yield s =
     (emit (currentTime s) (runningProcess s) (readyQueue s)
        (states s (runningProcess s) (readyQueue s) (currentTime s)) (trim (message s)) s)
       \<lparr>currentTime := currentTime s + 1\<rparr>"

definition srr_body :: "int \<Rightarrow> locals \<Rightarrow> locals" where
  "srr_body timeQuantum s =
     srr_yield (srr_execute (srr_dispatch (srr_arrivals (srr_retire timeQuantum
       (s\<lparr>message := []\<rparr>)))))"

definition simulateRoundRobin :: "Process list \<Rightarrow> int \<Rightarrow> TickEvent list option" where
  "simulateRoundRobin ps timeQuantum =
     (if length ps = 0 then Some []
      else map_option (\<lambda>s. yielded (finalEvent s))
             (while_loop (\<lambda>s. completed s < length ps) (srr_body timeQuantum) (initLocals ps)))"

subsection \<open>simulateSJF, second listing\<close>

text \<open>
  \<open>simulateSJF\<close> of the second listing: the two filters test \<open>p.remainingTime > 0\<close> where
  the first listing tests \<open>p.state !== 'completed'\<close>; the set \<open>arrivedProcessIds\<close> is written
  and never read. The rest is the text of the first listing.
\<close>

definition ssjf2_tick :: "nat \<Rightarrow> locals \<Rightarrow> locals" where
  "ssjf2_tick i s =
     (let s1 = decRemaining i s;
          currentReadyQueue =
            indicesWhere (\<lambda>p. arrivalTime p \<le> currentTime s1 \<and> remainingTime p > 0 \<and>
                               pid p \<noteq> pid (localProcesses s1 ! i)) (localProcesses s1);
          s2 = emit (currentTime s1) (Some i) currentReadyQueue
                 (states s1 (Some i) currentReadyQueue (currentTime s1)) (message s1) s1
      in s2\<lparr>message := [], currentTime := currentTime s2 + 1\<rparr>)"

definition ssjf2_execute :: "nat \<Rightarrow> locals \<Rightarrow> locals" where
  "ssjf2_execute i s =
     (let processToRun = localProcesses s ! i;
          s1 = s\<lparr>message := message s @ ''CPU selects '' @ name processToRun @
                               '' (shortest job).''\<rparr>;
          s2 = repeatN (nat (burstTime processToRun)) (ssjf2_tick i) s1;
          s3 = complete i (currentTime s2) s2
      in emit (currentTime s3 - 1) (Some i) [] (states s3 None [] (currentTime s3 - 1))
           (name (localProcesses s3 ! i) @ '' completes execution.'') s3)"

definition ssjf2_body :: "locals \<Rightarrow> locals" where
  "ssjf2_body s =
     (let s0 = s\<lparr>message := arrivalNote s\<rparr>;
          readyQueue = indicesWhere (\<lambda>p. arrivalTime p \<le> currentTime s0 \<and> remainingTime p > 0)
                         (localProcesses s0)
      in case reduce (sim_sjf_shorter (localProcesses s0)) readyQueue of
           None \<Rightarrow> snp_idle s0
         | Some i \<Rightarrow> ssjf2_execute i s0)"

definition simulateSJF2 :: "Process list \<Rightarrow> TickEvent list option" where
  "simulateSJF2 ps =
     (if length ps = 0 then Some []
      else map_option (\<lambda>s. yielded (finalEvent s))
             (while_loop (\<lambda>s. completed s < length ps) ssjf2_body (initLocals ps)))"

section \<open>Inputs and observations\<close>

text \<open>
  The process object that \<open>handleAddProcess\<close> (App.tsx) builds; the name and the colour,
  which it derives from the id, are parameters here.
\<close>

definition newProcess :: "int \<Rightarrow> string \<Rightarrow> string \<Rightarrow> int \<Rightarrow> int \<Rightarrow> int option \<Rightarrow> Process" where
  "newProcess newId nm col arrival burst prio =
     \<lparr> pid = newId, name = nm, arrivalTime = arrival, burstTime = burst, priority = prio,
       remainingTime = burst, color = col, completionTime = 0, turnaroundTime = 0,
       waitingTime = 0, state = NotArrived \<rparr>"

text \<open>
  The input contract: what \<open>handleAddProcess\<close> checks and builds. Ids are unique, arrival
  times are not negative, burst times are positive, a priority that is set is not negative,
  and a process starts with its whole burst remaining and not completed.
\<close>

definition validProcess :: "Process \<Rightarrow> bool" where
  "validProcess p \<longleftrightarrow>
     0 \<le> arrivalTime p \<and> 0 < burstTime p \<and>
     (case priority p of None \<Rightarrow> True | Some x \<Rightarrow> 0 \<le> x) \<and>
     remainingTime p = burstTime p \<and> state p = NotArrived"

definition validInput :: "Process list \<Rightarrow> bool" where
  "validInput ps \<longleftrightarrow> distinct (map pid ps) \<and> list_all validProcess ps"

text \<open>The segments of a chart as (processName, start, end).\<close>

definition segments :: "AlgorithmResult \<Rightarrow> (string \<times> int \<times> int) list" where
  "segments r = map (\<lambda>g. (processName g, start g, endT g)) (ganttChart r)"

text \<open>The metrics of a process list as (id, completionTime, turnaroundTime, waitingTime).\<close>

definition metrics :: "Process list \<Rightarrow> (int \<times> int \<times> int \<times> int) list" where
  "metrics ps = map (\<lambda>p. (pid p, completionTime p, turnaroundTime p, waitingTime p)) ps"

text \<open>What a consumer holds after exhausting a generator: the processes of the last event.\<close>

definition exhausted :: "TickEvent list \<Rightarrow> Process list" where
  "exhausted evs = (if evs = [] then [] else evProcesses (last evs))"

definition batchMetrics :: "AlgorithmResult \<Rightarrow> (int \<times> int \<times> int \<times> int) list" where
  "batchMetrics r = metrics (processes r)"

definition stepwiseMetrics :: "TickEvent list \<Rightarrow> (int \<times> int \<times> int \<times> int) list" where
  "stepwiseMetrics evs = metrics (exhausted evs)"

definition remainingTimes :: "AlgorithmResult \<Rightarrow> int list" where
  "remainingTimes r = map remainingTime (processes r)"

text \<open>The time the chart gives to a process name: the sum of \<open>end - start\<close> over its entries.\<close>

definition ganttTime :: "GanttEntry list \<Rightarrow> string \<Rightarrow> int" where
  "ganttTime chart n = sum_list (map (\<lambda>g. endT g - start g) (filter (\<lambda>g. processName g = n) chart))"

section \<open>Invariants\<close>


text \<open>
  The order in which SJF prefers position \<open>a\<close> to position \<open>j\<close>: shorter burst, then
  earlier arrival, then the later position in the list.
\<close>

definition sjfBefore :: "Process list \<Rightarrow> nat \<Rightarrow> nat \<Rightarrow> bool" where
  "sjfBefore ps a j \<longleftrightarrow>
     burstTime (ps ! a) < burstTime (ps ! j) \<or>
     (burstTime (ps ! a) = burstTime (ps ! j) \<and>
        (arrivalTime (ps ! a) < arrivalTime (ps ! j) \<or>
         (arrivalTime (ps ! a) = arrivalTime (ps ! j) \<and> j \<le> a)))"

subsection \<open>Timeline builder\<close>

text \<open>The chart pushed so far together with the entry that is still open.\<close>

definition openEntries :: "GanttEntry list \<Rightarrow> GanttEntry option \<Rightarrow> GanttEntry list" where
  "openEntries chart cur = chart @ (case cur of Some e \<Rightarrow> [e] | None \<Rightarrow> [])"

text \<open>The number of ticks of a timeline that ran the process name \<open>n\<close>.\<close>

definition ticksOf :: "string \<Rightarrow> TimelineInfo list \<Rightarrow> nat" where
  "ticksOf n tline = length (filter (\<lambda>x. case x of Some (m, c) \<Rightarrow> m = n | None \<Rightarrow> False) tline)"

text \<open>
  One pass of the loop of \<open>buildGanttChart\<close> at index \<open>i\<close>, on the chart pushed so far and
  \<open>currentEntry\<close>.
\<close>

definition ganttStep ::
  "TimelineInfo \<Rightarrow> int \<Rightarrow> GanttEntry list \<times> GanttEntry option \<Rightarrow> GanttEntry list \<times> GanttEntry option" where
  "ganttStep x i st =
     (case st of (chart, cur) \<Rightarrow>
        (case x of
           Some (pn, c) \<Rightarrow>
             (case cur of
                Some e \<Rightarrow>
                  if processName e = pn then (chart, Some (e\<lparr>endT := i + 1\<rparr>))
                  else (chart @ [e], Some \<lparr> processName = pn, start = i, endT = i + 1, colorG = c \<rparr>)
              | None \<Rightarrow> (chart, Some \<lparr> processName = pn, start = i, endT = i + 1, colorG = c \<rparr>))
         | None \<Rightarrow>
             (case cur of Some e \<Rightarrow> (chart @ [e], None) | None \<Rightarrow> (chart, None))))"

text \<open>The entry \<open>g\<close> covers tick \<open>k\<close>.\<close>

definition covers :: "GanttEntry \<Rightarrow> int \<Rightarrow> bool" where
  "covers g k \<longleftrightarrow> start g \<le> k \<and> k < endT g"

text \<open>
  What holds of the chart and the open entry after the ticks \<open>pre\<close>: the entries are
  non-empty intervals inside the ticks seen; the open entry ends at the current index and,
  if none is open, every entry ends before the last tick seen; the entries are in order and
  disjoint; entries that touch have different names; a tick ran a name exactly when an entry
  of that name covers it; an entry has the name and colour of its first tick; and the time
  the entries give to a name is the number of its ticks.
\<close>

definition ganttInv :: "TimelineInfo list \<Rightarrow> GanttEntry list \<times> GanttEntry option \<Rightarrow> bool" where
  "ganttInv pre st \<longleftrightarrow>
     (case st of (chart, cur) \<Rightarrow>
        (\<forall>g\<in>set (openEntries chart cur). 0 \<le> start g \<and> start g < endT g \<and> endT g \<le> int (length pre)) \<and>
        (case cur of Some e \<Rightarrow> endT e = int (length pre)
                   | None \<Rightarrow> \<forall>g\<in>set chart. endT g < int (length pre)) \<and>
        sorted_wrt (\<lambda>a b. endT a \<le> start b) (openEntries chart cur) \<and>
        successively (\<lambda>a b. endT a = start b \<longrightarrow> processName a \<noteq> processName b)
          (openEntries chart cur) \<and>
        (\<forall>k<length pre. \<forall>n. (\<exists>c. pre ! k = Some (n, c)) \<longleftrightarrow>
            (\<exists>g\<in>set (openEntries chart cur). processName g = n \<and> covers g (int k))) \<and>
        (\<forall>g\<in>set (openEntries chart cur). pre ! nat (start g) = Some (processName g, colorG g)) \<and>
        (\<forall>n. ganttTime (openEntries chart cur) n = int (ticksOf n pre)))"

subsection \<open>Measures\<close>

text \<open>The latest arrival time of a process list (0 for the empty list).\<close>

definition maxArrival :: "Process list \<Rightarrow> int" where
  "maxArrival ps = foldr (\<lambda>p m. max (arrivalTime p) m) ps 0"

subsection \<open>Stepwise engines\<close>

text \<open>
  The loops of \<open>simulateSJF\<close> and \<open>simulatePriorityNonPreemptive\<close>: the arrival times are
  those of the input and \<open>completed\<close> counts the processes in state \<open>completed\<close>.
\<close>

definition snpInv :: "Process list \<Rightarrow> locals \<Rightarrow> bool" where
  "snpInv ps s \<longleftrightarrow>
     map arrivalTime (localProcesses s) = map arrivalTime ps \<and>
     completed s = count_list (map state (localProcesses s)) Completed"

subsection \<open>Stepwise engines, preemptive\<close>

text \<open>
  The loops of \<open>simulateSRTF\<close> and \<open>simulatePriorityPreemptive\<close>: the arrival times are those
  of the input, no remaining time is negative and \<open>completed\<close> counts the processes with no
  time remaining.
\<close>

definition spInv :: "Process list \<Rightarrow> locals \<Rightarrow> bool" where
  "spInv ps s \<longleftrightarrow>
     map arrivalTime (localProcesses s) = map arrivalTime ps \<and>
     (\<forall>r\<in>set (map remainingTime (localProcesses s)). 0 \<le> r) \<and>
     completed s = count_list (map remainingTime (localProcesses s)) 0"

text \<open>The time that remains in all, as a measure.\<close>

definition remainingSum :: "locals \<Rightarrow> nat" where
  "remainingSum s = nat (sum_list (map remainingTime (localProcesses s)))"

subsection \<open>Round Robin\<close>

text \<open>
  The queue discipline of Round Robin, on the remaining times \<open>rem\<close>, the queue \<open>rq\<close>, the
  running slot \<open>run\<close> and the counter \<open>c\<close> of completed processes. \<open>bound\<close> separates the
  processes that have arrived (arrival time below it) from the others, \<open>pos\<close> says that
  the running process has time remaining. A process in the queue has arrived and has time
  remaining; the queue has no duplicates and does not hold the running process; a process
  that has arrived is retired (no time remaining and not running), queued or running; a
  process that has not arrived has its whole burst remaining; and \<open>c\<close> counts the retired
  processes.
\<close>

definition rrCore ::
  "Process list \<Rightarrow> int \<Rightarrow> bool \<Rightarrow> int list \<Rightarrow> nat list \<Rightarrow> nat option \<Rightarrow> nat \<Rightarrow> bool" where
  "rrCore ps bound pos rem rq run c \<longleftrightarrow>
     length rem = length ps \<and>
     (\<forall>i<length ps. 0 \<le> rem ! i \<and> rem ! i \<le> burstTime (ps ! i)) \<and>
     distinct rq \<and>
     (\<forall>i\<in>set rq. i < length ps \<and> 0 < rem ! i \<and> arrivalTime (ps ! i) < bound) \<and>
     (\<forall>r. run = Some r \<longrightarrow>
        r < length ps \<and> r \<notin> set rq \<and> arrivalTime (ps ! r) < bound \<and> (pos \<longrightarrow> 0 < rem ! r)) \<and>
     (\<forall>i<length ps. arrivalTime (ps ! i) < bound \<longrightarrow>
        (rem ! i = 0 \<and> run \<noteq> Some i) \<or> i \<in> set rq \<or> run = Some i) \<and>
     (\<forall>i<length ps. bound \<le> arrivalTime (ps ! i) \<longrightarrow> rem ! i = burstTime (ps ! i)) \<and>
     c + (case run of Some r \<Rightarrow> if rem ! r = 0 then 1 else 0 | None \<Rightarrow> 0) = count_list rem 0"

subsection \<open>Round Robin on an engine\<close>

text \<open>
  The queue discipline on the variables of an engine: the arrival and burst times are those
  of the input.
\<close>

definition rrInv :: "Process list \<Rightarrow> int \<Rightarrow> bool \<Rightarrow> locals \<Rightarrow> bool" where
  "rrInv ps bound pos s \<longleftrightarrow>
     map arrivalTime (localProcesses s) = map arrivalTime ps \<and>
     map burstTime (localProcesses s) = map burstTime ps \<and>
     rrCore ps bound pos (map remainingTime (localProcesses s)) (readyQueue s)
       (runningProcess s) (completed s)"

subsection \<open>Stepwise output\<close>

text \<open>
  A generator returns after at least one event and its last event says that all processes
  completed.
\<close>

definition endsWithFinalEvent :: "TickEvent list option \<Rightarrow> bool" where
  "endsWithFinalEvent r \<longleftrightarrow>
     (case r of
        None \<Rightarrow> False
      | Some evs \<Rightarrow> evs \<noteq> [] \<and> eventMessage (last evs) = ''All processes complete.'')"

subsection \<open>Batch engines\<close>

text \<open>The three relations between the metrics of a completed process.\<close>

definition metricsOk :: "Process \<Rightarrow> bool" where
  "metricsOk p \<longleftrightarrow>
     turnaroundTime p = completionTime p - arrivalTime p \<and>
     waitingTime p = turnaroundTime p - burstTime p \<and>
     0 \<le> waitingTime p"

text \<open>The engines never write the id, name, arrival time or burst time of a process.\<close>

definition sameStatic :: "Process list \<Rightarrow> Process list \<Rightarrow> bool" where
  "sameStatic ps lp \<longleftrightarrow>
     map pid lp = map pid ps \<and> map name lp = map name ps \<and>
     map arrivalTime lp = map arrivalTime ps \<and> map burstTime lp = map burstTime ps"





text \<open>
  \<open>runRoundRobin\<close>, beside the queue discipline: a retired process (no time remaining and
  not in the running slot) has its metrics; a process has run for no more ticks than lie
  between its arrival and \<open>tau\<close>; and the timeline holds, for each process, the ticks it
  has run.
\<close>

definition rrBatchInv :: "Process list \<Rightarrow> int \<Rightarrow> locals \<Rightarrow> bool" where
  "rrBatchInv ps tau s \<longleftrightarrow>
     sameStatic ps (localProcesses s) \<and>
     (\<forall>i<length ps. remainingTime (localProcesses s ! i) = 0 \<and> runningProcess s \<noteq> Some i \<longrightarrow>
        metricsOk (localProcesses s ! i)) \<and>
     (\<forall>i<length ps. remainingTime (localProcesses s ! i) = burstTime (ps ! i) \<or>
        arrivalTime (ps ! i) + (burstTime (ps ! i) - remainingTime (localProcesses s ! i)) \<le> tau) \<and>
     (distinct (map name ps) \<longrightarrow>
        (\<forall>i<length ps. int (ticksOf (name (ps ! i)) (timeline s)) =
            burstTime (ps ! i) - remainingTime (localProcesses s ! i)))"

text \<open>
  The chart of a result gives every process of \<open>ps\<close> its burst time, and its entries are
  non-empty intervals in order, none overlapping another.
\<close>

definition chartDisjoint :: "AlgorithmResult \<Rightarrow> bool" where
  "chartDisjoint r \<longleftrightarrow>
     list_all (\<lambda>g. start g < endT g) (ganttChart r) \<and>
     sorted_wrt (\<lambda>a b. endT a \<le> start b) (ganttChart r)"



subsection \<open>Round Robin at the ceiling\<close>


text \<open>Every process of the result has consistent metrics.\<close>

definition metricsConsistent :: "AlgorithmResult \<Rightarrow> bool" where
  "metricsConsistent r \<longleftrightarrow> list_all metricsOk (processes r)"

subsection \<open>Selection in SJF\<close>

text \<open>
  The ready sets of the SJF engines, as positions in \<open>localProcesses\<close>: \<open>np_ready\<close> for the
  two \<open>runSJF\<close> (arrived and not marked completed), \<open>snp_ready\<close> for \<open>simulateSJF\<close> of the
  first listing (arrived and not in state \<open>completed\<close>), \<open>ssjf2_ready\<close> for \<open>simulateSJF\<close> of
  the second (arrived and with time remaining).
\<close>

definition snp_ready :: "locals \<Rightarrow> nat list" where
  "snp_ready s =
     indicesWhere (\<lambda>p. arrivalTime p \<le> currentTime s \<and> state p \<noteq> Completed) (localProcesses s)"

definition ssjf2_ready :: "locals \<Rightarrow> nat list" where
  "ssjf2_ready s =
     indicesWhere (\<lambda>p. arrivalTime p \<le> currentTime s \<and> remainingTime p > 0) (localProcesses s)"

text \<open>
  Position \<open>sel\<close> of the ready set \<open>rq\<close> has the least burst time and, among those with that
  burst time, the least arrival time. \<open>sjfTie\<close>: position \<open>j\<close> ties with \<open>sel\<close> on both.
\<close>

definition sjfLeast :: "Process list \<Rightarrow> nat list \<Rightarrow> nat \<Rightarrow> bool" where
  "sjfLeast lp rq sel \<longleftrightarrow>
     sel \<in> set rq \<and>
     (\<forall>j\<in>set rq. burstTime (lp ! sel) \<le> burstTime (lp ! j) \<and>
        (burstTime (lp ! j) = burstTime (lp ! sel) \<longrightarrow> arrivalTime (lp ! sel) \<le> arrivalTime (lp ! j)))"

definition sjfTie :: "Process list \<Rightarrow> nat \<Rightarrow> nat \<Rightarrow> bool" where
  "sjfTie lp j sel \<longleftrightarrow>
     burstTime (lp ! j) = burstTime (lp ! sel) \<and> arrivalTime (lp ! j) = arrivalTime (lp ! sel)"

text \<open>
  The order in which the \<open>forEach\<close> of the second listing prefers position \<open>a\<close> to position
  \<open>j\<close>: smaller key, then earlier arrival, then the earlier position in the list.
\<close>

definition keyBefore :: "(Process \<Rightarrow> int option) \<Rightarrow> Process list \<Rightarrow> nat \<Rightarrow> nat \<Rightarrow> bool" where
  "keyBefore key ps a j \<longleftrightarrow>
     ltInf (key (ps ! a)) (key (ps ! j)) \<or>
     (key (ps ! a) = key (ps ! j) \<and>
        (arrivalTime (ps ! a) < arrivalTime (ps ! j) \<or>
         (arrivalTime (ps ! a) = arrivalTime (ps ! j) \<and> a \<le> j)))"

subsection \<open>Charts of the batch engines\<close>


section \<open>Loops\<close>



lemma while_loop_terminates:
  assumes "wf R" and "I s" and "\<And>s. I s \<Longrightarrow> b s \<Longrightarrow> I (c s) \<and> (c s, s) \<in> R"
  shows "\<exists>t. while_loop b c s = Some t"
  using assms(1,2)
proof (induction s rule: wf_induct_rule)
  case (less s)
  show ?case
  proof (cases "b s")
    case True
    with assms(3)[OF less.prems] less.IH[of "c s"] obtain t where "while_loop b c (c s) = Some t"
      by blast
    with True show ?thesis by (subst while_loop.simps) simp
  next
    case False
    then show ?thesis by (subst while_loop.simps) simp
  qed
qed

lemma while_loop_funpow:
  "(\<forall>j<k. b ((c ^^ j) s)) \<Longrightarrow> while_loop b c s = while_loop b c ((c ^^ k) s)"
proof (induction k arbitrary: s)
  case 0
  then show ?case by simp
next
  case (Suc k)
  have b0: "b s" using Suc.prems by (metis funpow_0 zero_less_Suc)
  have "\<forall>j<k. b ((c ^^ j) (c s))"
  proof (intro allI impI)
    fix j assume "j < k"
    then have "b ((c ^^ Suc j) s)" using Suc.prems by blast
    then show "b ((c ^^ j) (c s))" by (simp add: funpow_swap1)
  qed
  from Suc.IH[OF this] have "while_loop b c (c s) = while_loop b c ((c ^^ k) (c s))" .
  moreover have "while_loop b c s = while_loop b c (c s)" using b0 by (subst while_loop.simps) simp
  ultimately show ?case by (simp add: funpow_swap1)
qed

section \<open>Round Robin on the example of the specification\<close>

text \<open>
  C5 (as stated): \<open>runRoundRobin\<close> with quantum 2 on P1 (arrival 0, burst 5) and P2
  (arrival 1, burst 3) returns the segments P1:[0,2), P2:[2,4), P1:[4,6), P2:[6,7),
  P1:[7,9). It does not: the last segment the engine returns is not P1:[7,9).
\<close>

theorem C5_stated_segments_refuted:
  "map_option segments
     (runRoundRobin [newProcess 1 ''P1'' ''c1'' 0 5 None, newProcess 2 ''P2'' ''c2'' 1 3 None] 2)
   \<noteq> Some [(''P1'', 0, 2), (''P2'', 2, 4), (''P1'', 4, 6), (''P2'', 6, 7), (''P1'', 7, 9)]"
  by code_simp

text \<open>
  C5 (amended): on that input \<open>runRoundRobin\<close> returns exactly the segments P1:[0,2),
  P2:[2,4), P1:[4,6), P2:[6,7), P1:[7,8), and the completion times P2 = 7 and P1 = 8 (P1 has
  then run for its 5 units of burst). The second listing returns the same.
\<close>

theorem C5_round_robin_example:
  "map_option segments
     (runRoundRobin [newProcess 1 ''P1'' ''c1'' 0 5 None, newProcess 2 ''P2'' ''c2'' 1 3 None] 2)
   = Some [(''P1'', 0, 2), (''P2'', 2, 4), (''P1'', 4, 6), (''P2'', 6, 7), (''P1'', 7, 8)]
   \<and> map_option batchMetrics
     (runRoundRobin [newProcess 1 ''P1'' ''c1'' 0 5 None, newProcess 2 ''P2'' ''c2'' 1 3 None] 2)
   = Some [(1, 8, 8, 3), (2, 7, 6, 3)]
   \<and> map_option segments
     (runRoundRobin2 [newProcess 1 ''P1'' ''c1'' 0 5 None, newProcess 2 ''P2'' ''c2'' 1 3 None] 2)
   = Some [(''P1'', 0, 2), (''P2'', 2, 4), (''P1'', 4, 6), (''P2'', 6, 7), (''P1'', 7, 8)]
   \<and> map_option batchMetrics
     (runRoundRobin2 [newProcess 1 ''P1'' ''c1'' 0 5 None, newProcess 2 ''P2'' ''c2'' 1 3 None] 2)
   = Some [(1, 8, 8, 3), (2, 7, 6, 3)]"
  by code_simp

section \<open>Total time of Round Robin\<close>

text \<open>
  C8 (the code at the failing input): for the single process P1 (arrival 0, burst 1) and
  quantum 2, \<open>runRoundRobin\<close> completes P1 at time 1 and returns \<open>totalTime = 2\<close>: the
  completion is noticed at the start of the next pass of the loop, which still advances the
  clock. The second listing returns \<open>currentTime - 1\<close>, which is 1.
\<close>

theorem C8_round_robin_total_time_off_by_one:
  "map_option totalTime (runRoundRobin [newProcess 1 ''P1'' ''c1'' 0 1 None] 2) = Some 2
   \<and> map_option batchMetrics (runRoundRobin [newProcess 1 ''P1'' ''c1'' 0 1 None] 2)
     = Some [(1, 1, 1, 0)]
   \<and> map_option totalTime (runRoundRobin2 [newProcess 1 ''P1'' ''c1'' 0 1 None] 2) = Some 1"
  by code_simp

section \<open>Batch and stepwise engines on a tie\<close>

text \<open>
  C1 (the code at the failing input): for P1 and P2, both with arrival 0 and burst 2, the
  batch SRTF engine completes P1 at 2 and P2 at 4, and the SRTF generator completes P2 at 2
  and P1 at 4. On a tie of remaining time and arrival time the \<open>forEach\<close> of the batch engine
  keeps the first process of the list and the \<open>reduce\<close> of the generator the last.
\<close>

theorem C1_srtf_batch_and_stepwise_differ:
  "map_option batchMetrics
     (runSRTF [newProcess 1 ''P1'' ''c1'' 0 2 None, newProcess 2 ''P2'' ''c2'' 0 2 None])
   = Some [(1, 2, 2, 0), (2, 4, 4, 2)]
   \<and> map_option stepwiseMetrics
     (simulateSRTF [newProcess 1 ''P1'' ''c1'' 0 2 None, newProcess 2 ''P2'' ''c2'' 0 2 None])
   = Some [(1, 4, 4, 2), (2, 2, 2, 0)]"
  by code_simp

section \<open>Order of retirement and arrival in Round Robin\<close>

text \<open>
  C4 (the code at the failing input): P1 (arrival 0, burst 4), P2 (arrival 2, burst 2),
  quantum 2. At time 2 the quantum of P1 expires and P2 arrives. The first listing retires
  P1 to the queue before P2 joins it, so P1 goes on: P1:[0,4), P2:[4,6). The second listing
  lets P2 join the queue first, so P2 runs at time 2: P1:[0,2), P2:[2,4), P1:[4,6).
\<close>

theorem C4_second_listing_enqueues_arrival_first:
  "map_option segments
     (runRoundRobin2 [newProcess 1 ''P1'' ''c1'' 0 4 None, newProcess 2 ''P2'' ''c2'' 2 2 None] 2)
   = Some [(''P1'', 0, 2), (''P2'', 2, 4), (''P1'', 4, 6)]
   \<and> map_option segments
     (runRoundRobin [newProcess 1 ''P1'' ''c1'' 0 4 None, newProcess 2 ''P2'' ''c2'' 2 2 None] 2)
   = Some [(''P1'', 0, 4), (''P2'', 4, 6)]"
  by code_simp

section \<open>The safety ceiling of Round Robin\<close>

lemma rr_retire_fields [simp]:
  "currentTime (rr_retire q s) = currentTime s"
  "stopped (rr_retire q s) = stopped s"
  "console (rr_retire q s) = console s"
  by (simp_all add: rr_retire_def split: option.splits)

lemma rr_arrivals_fields [simp]:
  "currentTime (rr_arrivals s) = currentTime s"
  "stopped (rr_arrivals s) = stopped s"
  "console (rr_arrivals s) = console s"
  by (simp_all add: rr_arrivals_def)

lemma rr_dispatch_fields [simp]:
  "currentTime (rr_dispatch s) = currentTime s"
  "stopped (rr_dispatch s) = stopped s"
  "console (rr_dispatch s) = console s"
  by (simp_all add: rr_dispatch_def)

lemma rr_execute_fields [simp]:
  "currentTime (rr_execute s) = currentTime s"
  "stopped (rr_execute s) = stopped s"
  "console (rr_execute s) = console s"
  by (simp_all add: rr_execute_def Let_def split: option.splits)

lemma rr_body_clock:
  "currentTime (rr_body q s) = currentTime s + 1"
  "stopped s \<Longrightarrow> stopped (rr_body q s)"
  "\<not> stopped s \<Longrightarrow> stopped (rr_body q s) \<longleftrightarrow> currentTime s + 1 > 20000"
  "console (rr_body q s) =
     (if currentTime s + 1 > 20000
      then console s @ [''Breaking Round Robin loop, possible infinite loop detected.'']
      else console s)"
  by (simp_all add: rr_body_def rr_advance_def Let_def)




lemma rr_idle_step:
  assumes "\<forall>p\<in>set ps. arrivalTime p \<noteq> currentTime s" "localProcesses s = ps"
     "runningProcess s = None" "readyQueue s = []"
  shows "rr_body q s = rr_advance 20000 (s\<lparr>timeline := timeline s @ [None]\<rparr>)"
proof -
  have "indicesWhere (\<lambda>p. arrivalTime p = currentTime s) ps = []"
    using assms(1) by (auto simp: indicesWhere_def filter_empty_conv)
  then show ?thesis using assms(2-)
    by (cases s)
      (simp add: rr_body_def rr_retire_def rr_arrivals_def rr_dispatch_def rr_execute_def sortBy_def)
qed



section \<open>Selection in SJF\<close>

lemma sim_sjf_shorter_eq: "sim_sjf_shorter = sjf_shorter"
  by (intro ext) (simp add: sim_sjf_shorter_def sjf_shorter_def)

lemma indicesWhere_sorted: "sorted_wrt (<) (indicesWhere P ps)"
  by (simp add: indicesWhere_def sorted_wrt_filter)

lemma set_indicesWhere: "set (indicesWhere P ps) = {i. i < length ps \<and> P (ps ! i)}"
  by (auto simp: indicesWhere_def)

lemma foldl_sjf_shorter:
  assumes "a \<in> S" and "\<forall>j\<in>S. sjfBefore ps a j" and "\<forall>j\<in>S. \<forall>y\<in>set ys. j < y"
    and "sorted_wrt (<) ys"
  shows "foldl (sjf_shorter ps) a ys \<in> S \<union> set ys \<and>
         (\<forall>j\<in>S \<union> set ys. sjfBefore ps (foldl (sjf_shorter ps) a ys) j)"
  using assms
proof (induction ys arbitrary: a S)
  case Nil
  then show ?case by simp
next
  case (Cons y ys)
  let ?b = "sjf_shorter ps a y"
  have b: "?b = a \<or> ?b = y" by (simp add: sjf_shorter_def)
  have lt: "\<forall>j\<in>S. j < y" using Cons.prems(3) by simp
  have s1: "?b \<in> insert y S" using b Cons.prems(1) by auto
  have s2: "\<forall>j\<in>insert y S. sjfBefore ps ?b j"
  proof
    fix j assume j: "j \<in> insert y S"
    show "sjfBefore ps ?b j"
    proof (cases "j = y")
      case True
      then show ?thesis by (auto simp: sjfBefore_def sjf_shorter_def)
    next
      case False
      with j have jS: "j \<in> S" by simp
      then have "sjfBefore ps a j" "j < y" using Cons.prems(2) lt by auto
      then show ?thesis by (auto simp: sjfBefore_def sjf_shorter_def)
    qed
  qed
  have s3: "\<forall>j\<in>insert y S. \<forall>z\<in>set ys. j < z" using Cons.prems(3,4) by auto
  have s4: "sorted_wrt (<) ys" using Cons.prems(4) by simp
  have eq: "S \<union> set (y # ys) = insert y S \<union> set ys" by auto
  from Cons.IH[OF s1 s2 s3 s4] show ?case unfolding foldl_Cons eq .
qed

lemma reduce_sjf_shorter:
  assumes "reduce (sjf_shorter ps) (indicesWhere P ps) = Some sel"
  shows "sel < length ps \<and> P (ps ! sel) \<and> (\<forall>j<length ps. P (ps ! j) \<longrightarrow> sjfBefore ps sel j)"
proof (cases "indicesWhere P ps")
  case Nil
  with assms show ?thesis by simp
next
  case (Cons x xs)
  with assms have sel: "sel = foldl (sjf_shorter ps) x xs" by simp
  have srt: "sorted_wrt (<) (x # xs)" using indicesWhere_sorted[of P ps] Cons by simp
  have "foldl (sjf_shorter ps) x xs \<in> {x} \<union> set xs \<and>
         (\<forall>j\<in>{x} \<union> set xs. sjfBefore ps (foldl (sjf_shorter ps) x xs) j)"
    by (rule foldl_sjf_shorter) (use srt in \<open>auto simp: sjfBefore_def\<close>)
  then have "sel \<in> set (indicesWhere P ps)" "\<forall>j\<in>set (indicesWhere P ps). sjfBefore ps sel j"
    using sel Cons by auto
  then show ?thesis by (simp add: set_indicesWhere)
qed

lemma reduce_Some: "xs \<noteq> [] \<Longrightarrow> \<exists>y. reduce f xs = Some y"
  by (cases xs) simp_all

section \<open>The timeline builder\<close>

lemma loop_step:
  "buildGanttChart_loop (x # rest) i chart cur =
     (case ganttStep x i (chart, cur) of (chart', cur') \<Rightarrow> buildGanttChart_loop rest (i + 1) chart' cur')"
  by (cases x; cases cur) (auto simp: ganttStep_def split: prod.splits)

lemma loop_end: "buildGanttChart_loop [] i chart cur = openEntries chart cur"
  by (simp add: openEntries_def split: option.splits)

lemma ganttInv_init: "ganttInv [] ([], None)"
  by (simp add: ganttInv_def openEntries_def ganttTime_def ticksOf_def)

lemma ganttTime_append: "ganttTime (xs @ ys) n = ganttTime xs n + ganttTime ys n"
  by (simp add: ganttTime_def)

lemma ganttTime_single:
  "ganttTime [g] n = (if processName g = n then endT g - start g else 0)"
  by (simp add: ganttTime_def)

lemma ticksOf_snoc:
  "ticksOf n (pre @ [x]) = ticksOf n pre + (case x of Some (m, c) \<Rightarrow> if m = n then 1 else 0 | None \<Rightarrow> 0)"
  by (auto simp: ticksOf_def split: option.splits)

lemma ganttInv_idle:
  assumes "ganttInv pre (chart, cur)"
  shows "ganttInv (pre @ [None]) (openEntries chart cur, None)"
proof -
  let ?es = "openEntries chart cur"
  have oe: "openEntries ?es None = ?es" by (simp add: openEntries_def)
  from assms have A: "\<forall>g\<in>set ?es. 0 \<le> start g \<and> start g < endT g \<and> endT g \<le> int (length pre)"
    and B: "sorted_wrt (\<lambda>a b. endT a \<le> start b) ?es"
    and D: "successively (\<lambda>a b. endT a = start b \<longrightarrow> processName a \<noteq> processName b) ?es"
    and C: "\<forall>k<length pre. \<forall>n. (\<exists>c. pre ! k = Some (n, c)) \<longleftrightarrow>
            (\<exists>g\<in>set ?es. processName g = n \<and> covers g (int k))"
    and G: "\<forall>g\<in>set ?es. pre ! nat (start g) = Some (processName g, colorG g)"
    and F: "\<forall>n. ganttTime ?es n = int (ticksOf n pre)"
    by (simp_all add: ganttInv_def)
  have A': "\<forall>g\<in>set ?es. 0 \<le> start g \<and> start g < endT g \<and> endT g \<le> int (length (pre @ [None]))"
    using A by auto
  have E': "\<forall>g\<in>set ?es. endT g < int (length (pre @ [None]))" using A by auto
  have C': "\<forall>k<length (pre @ [None]). \<forall>n. (\<exists>c. (pre @ [None]) ! k = Some (n, c)) \<longleftrightarrow>
            (\<exists>g\<in>set ?es. processName g = n \<and> covers g (int k))"
  proof (intro allI impI)
    fix k n assume k: "k < length (pre @ [None])"
    show "(\<exists>c. (pre @ [None]) ! k = Some (n, c)) \<longleftrightarrow>
            (\<exists>g\<in>set ?es. processName g = n \<and> covers g (int k))"
    proof (cases "k < length pre")
      case True
      then show ?thesis using C by (simp add: nth_append)
    next
      case False
      with k have "k = length pre" by simp
      then show ?thesis using A by (auto simp: covers_def nth_append)
    qed
  qed
  have G': "\<forall>g\<in>set ?es. (pre @ [None]) ! nat (start g) = Some (processName g, colorG g)"
  proof
    fix g assume g: "g \<in> set ?es"
    with A have "nat (start g) < length pre" by fastforce
    then show "(pre @ [None]) ! nat (start g) = Some (processName g, colorG g)"
      using G g by (simp add: nth_append)
  qed
  have F': "\<forall>n. ganttTime ?es n = int (ticksOf n (pre @ [None]))"
    using F by (simp add: ticksOf_snoc)
  show ?thesis
    unfolding ganttInv_def prod.case option.case oe
    using A' E' B D C' G' F' by blast
qed

lemma ganttInv_extend:
  assumes "ganttInv pre (chart, Some e)"
  shows "ganttInv (pre @ [Some (processName e, c)]) (chart, Some (e\<lparr>endT := int (length pre) + 1\<rparr>))"
proof -
  let ?x = "Some (processName e, c)"
  let ?e' = "e\<lparr>endT := int (length pre) + 1\<rparr>"
  have oe: "openEntries chart (Some e) = chart @ [e]" "openEntries chart (Some ?e') = chart @ [?e']"
    by (simp_all add: openEntries_def)
  from assms have A: "\<forall>g\<in>set (chart @ [e]). 0 \<le> start g \<and> start g < endT g \<and> endT g \<le> int (length pre)"
    and E: "endT e = int (length pre)"
    and B: "sorted_wrt (\<lambda>a b. endT a \<le> start b) (chart @ [e])"
    and D: "successively (\<lambda>a b. endT a = start b \<longrightarrow> processName a \<noteq> processName b) (chart @ [e])"
    and C: "\<forall>k<length pre. \<forall>n. (\<exists>c. pre ! k = Some (n, c)) \<longleftrightarrow>
            (\<exists>g\<in>set (chart @ [e]). processName g = n \<and> covers g (int k))"
    and G: "\<forall>g\<in>set (chart @ [e]). pre ! nat (start g) = Some (processName g, colorG g)"
    and F: "\<forall>n. ganttTime (chart @ [e]) n = int (ticksOf n pre)"
    by (simp_all add: ganttInv_def oe)
  have A': "\<forall>g\<in>set (chart @ [?e']). 0 \<le> start g \<and> start g < endT g \<and> endT g \<le> int (length (pre @ [?x]))"
    using A by auto
  have E': "endT ?e' = int (length (pre @ [?x]))" by simp
  have B': "sorted_wrt (\<lambda>a b. endT a \<le> start b) (chart @ [?e'])"
    using B by (simp add: sorted_wrt_append)
  have D': "successively (\<lambda>a b. endT a = start b \<longrightarrow> processName a \<noteq> processName b) (chart @ [?e'])"
    using D by (simp add: successively_append_iff)
  have before: "\<forall>g\<in>set chart. endT g \<le> start e" using B by (simp add: sorted_wrt_append)
  have C': "\<forall>k<length (pre @ [?x]). \<forall>n. (\<exists>c. (pre @ [?x]) ! k = Some (n, c)) \<longleftrightarrow>
            (\<exists>g\<in>set (chart @ [?e']). processName g = n \<and> covers g (int k))"
  proof (intro allI impI)
    fix k n assume k: "k < length (pre @ [?x])"
    show "(\<exists>c. (pre @ [?x]) ! k = Some (n, c)) \<longleftrightarrow>
            (\<exists>g\<in>set (chart @ [?e']). processName g = n \<and> covers g (int k))"
    proof (cases "k < length pre")
      case True
      then have "covers ?e' (int k) \<longleftrightarrow> covers e (int k)" using E by (simp add: covers_def)
      then show ?thesis using C True by (simp add: nth_append)
    next
      case False
      with k have kl: "k = length pre" by simp
      have "\<forall>g\<in>set chart. \<not> covers g (int k)" using before A E kl by (auto simp: covers_def)
      moreover have "covers ?e' (int k)" using A kl by (simp add: covers_def)
      ultimately show ?thesis using kl by (auto simp: nth_append)
    qed
  qed
  have G': "\<forall>g\<in>set (chart @ [?e']). (pre @ [?x]) ! nat (start g) = Some (processName g, colorG g)"
  proof
    fix g assume g: "g \<in> set (chart @ [?e'])"
    have "\<exists>g0. g0 \<in> set (chart @ [e]) \<and> start g = start g0 \<and>
      processName g = processName g0 \<and> colorG g = colorG g0"
    proof (cases "g \<in> set chart")
      case True
      then show ?thesis by auto
    next
      case False
      with g have "g = ?e'" by simp
      then have "e \<in> set (chart @ [e]) \<and> start g = start e \<and>
        processName g = processName e \<and> colorG g = colorG e" by simp
      then show ?thesis by blast
    qed
    then obtain g0 where g0: "g0 \<in> set (chart @ [e])" "start g = start g0"
      "processName g = processName g0" "colorG g = colorG g0" by blast
    with A have "nat (start g) < length pre" by fastforce
    moreover from G g0(1) have "pre ! nat (start g0) = Some (processName g0, colorG g0)" by blast
    ultimately show "(pre @ [?x]) ! nat (start g) = Some (processName g, colorG g)"
      using g0 by (simp add: nth_append)
  qed
  have F': "\<forall>n. ganttTime (chart @ [?e']) n = int (ticksOf n (pre @ [?x]))"
  proof
    fix n
    from F have "ganttTime (chart @ [e]) n = int (ticksOf n pre)" by blast
    then show "ganttTime (chart @ [?e']) n = int (ticksOf n (pre @ [?x]))"
      using E by (auto simp: ticksOf_snoc ganttTime_append ganttTime_single split: if_splits)
  qed
  show ?thesis
    unfolding ganttInv_def prod.case option.case oe
    using A' E' B' D' C' G' F' by blast
qed

lemma ganttInv_new:
  assumes "ganttInv pre (chart, cur)" and "\<forall>e. cur = Some e \<longrightarrow> processName e \<noteq> n"
  shows "ganttInv (pre @ [Some (n, c)]) (openEntries chart cur,
           Some \<lparr> processName = n, start = int (length pre), endT = int (length pre) + 1, colorG = c \<rparr>)"
proof -
  let ?x = "Some (n, c)"
  let ?es = "openEntries chart cur"
  let ?new = "\<lparr> processName = n, start = int (length pre), endT = int (length pre) + 1, colorG = c \<rparr>"
  have oe: "openEntries ?es (Some ?new) = ?es @ [?new]" by (simp add: openEntries_def)
  from assms have A: "\<forall>g\<in>set ?es. 0 \<le> start g \<and> start g < endT g \<and> endT g \<le> int (length pre)"
    and E: "case cur of Some e \<Rightarrow> endT e = int (length pre)
                   | None \<Rightarrow> \<forall>g\<in>set chart. endT g < int (length pre)"
    and B: "sorted_wrt (\<lambda>a b. endT a \<le> start b) ?es"
    and D: "successively (\<lambda>a b. endT a = start b \<longrightarrow> processName a \<noteq> processName b) ?es"
    and C: "\<forall>k<length pre. \<forall>n. (\<exists>c. pre ! k = Some (n, c)) \<longleftrightarrow>
            (\<exists>g\<in>set ?es. processName g = n \<and> covers g (int k))"
    and G: "\<forall>g\<in>set ?es. pre ! nat (start g) = Some (processName g, colorG g)"
    and F: "\<forall>n. ganttTime ?es n = int (ticksOf n pre)"
    by (simp_all add: ganttInv_def)
  have A': "\<forall>g\<in>set (?es @ [?new]). 0 \<le> start g \<and> start g < endT g \<and> endT g \<le> int (length (pre @ [?x]))"
    using A by auto
  have E': "endT ?new = int (length (pre @ [?x]))" by simp
  have B': "sorted_wrt (\<lambda>a b. endT a \<le> start b) (?es @ [?new])"
    using B A by (simp add: sorted_wrt_append)
  have last_ok: "?es \<noteq> [] \<Longrightarrow> endT (last ?es) = start ?new \<longrightarrow> processName (last ?es) \<noteq> processName ?new"
  proof (cases cur)
    case None
    assume ne: "?es \<noteq> []"
    from None have "?es = chart" by (simp add: openEntries_def)
    with ne E None have "endT (last ?es) < int (length pre)" by simp
    then show ?thesis by simp
  next
    case (Some e)
    then have "last ?es = e" by (simp add: openEntries_def)
    with assms(2) Some show ?thesis by simp
  qed
  have D': "successively (\<lambda>a b. endT a = start b \<longrightarrow> processName a \<noteq> processName b) (?es @ [?new])"
    using D last_ok by (auto simp: successively_append_iff)
  have C': "\<forall>k<length (pre @ [?x]). \<forall>m. (\<exists>c. (pre @ [?x]) ! k = Some (m, c)) \<longleftrightarrow>
            (\<exists>g\<in>set (?es @ [?new]). processName g = m \<and> covers g (int k))"
  proof (intro allI impI)
    fix k m assume k: "k < length (pre @ [?x])"
    show "(\<exists>c. (pre @ [?x]) ! k = Some (m, c)) \<longleftrightarrow>
            (\<exists>g\<in>set (?es @ [?new]). processName g = m \<and> covers g (int k))"
    proof (cases "k < length pre")
      case True
      then have "\<not> covers ?new (int k)" by (simp add: covers_def)
      then show ?thesis using C True by (simp add: nth_append)
    next
      case False
      with k have kl: "k = length pre" by simp
      have "\<forall>g\<in>set ?es. \<not> covers g (int k)" using A kl by (auto simp: covers_def)
      moreover have "covers ?new (int k)" using kl by (simp add: covers_def)
      ultimately show ?thesis using kl by (auto simp: nth_append)
    qed
  qed
  have G': "\<forall>g\<in>set (?es @ [?new]). (pre @ [?x]) ! nat (start g) = Some (processName g, colorG g)"
  proof
    fix g assume g: "g \<in> set (?es @ [?new])"
    show "(pre @ [?x]) ! nat (start g) = Some (processName g, colorG g)"
    proof (cases "g \<in> set ?es")
      case True
      with A have "nat (start g) < length pre" by fastforce
      then show ?thesis using G True by (simp add: nth_append)
    next
      case False
      with g have "g = ?new" by simp
      then show ?thesis by simp
    qed
  qed
  have F': "\<forall>m. ganttTime (?es @ [?new]) m = int (ticksOf m (pre @ [?x]))"
    using F by (simp add: ticksOf_snoc ganttTime_append ganttTime_single)
  show ?thesis
    unfolding ganttInv_def prod.case option.case oe
    using A' E' B' D' C' G' F' by blast
qed

lemma ganttInv_step:
  assumes "ganttInv pre st"
  shows "ganttInv (pre @ [x]) (ganttStep x (int (length pre)) st)"
proof (cases st)
  case (Pair chart cur)
  show ?thesis
  proof (cases x)
    case None
    have "ganttStep x (int (length pre)) st = (openEntries chart cur, None)"
      using None Pair by (simp add: ganttStep_def openEntries_def split: option.splits)
    then show ?thesis using ganttInv_idle[of pre chart cur] assms Pair None by simp
  next
    case (Some nc)
    obtain n c where nc: "nc = (n, c)" by (cases nc)
    show ?thesis
    proof (cases "\<exists>e. cur = Some e \<and> processName e = n")
      case True
      then obtain e where e: "cur = Some e" "processName e = n" by blast
      then have "ganttStep x (int (length pre)) st = (chart, Some (e\<lparr>endT := int (length pre) + 1\<rparr>))"
        using Some nc Pair by (simp add: ganttStep_def)
      then show ?thesis using ganttInv_extend[of pre chart e c] assms Pair Some nc e by simp
    next
      case False
      then have "ganttStep x (int (length pre)) st = (openEntries chart cur,
           Some \<lparr> processName = n, start = int (length pre), endT = int (length pre) + 1, colorG = c \<rparr>)"
        using Some nc Pair by (auto simp: ganttStep_def openEntries_def split: option.splits)
      then show ?thesis using ganttInv_new[of pre chart cur n c] assms Pair Some nc False by simp
    qed
  qed
qed

lemma loop_inv:
  assumes "ganttInv pre (chart, cur)"
  shows "\<exists>chart' cur'. ganttInv (pre @ rest) (chart', cur') \<and>
           buildGanttChart_loop rest (int (length pre)) chart cur = openEntries chart' cur'"
  using assms
proof (induction rest arbitrary: pre chart cur)
  case Nil
  have "buildGanttChart_loop [] (int (length pre)) chart cur = openEntries chart cur"
    by (rule loop_end)
  with Nil have "ganttInv (pre @ []) (chart, cur) \<and>
     buildGanttChart_loop [] (int (length pre)) chart cur = openEntries chart cur"
    by simp
  then show ?case by blast
next
  case (Cons x rest)
  obtain chart1 cur1 where st: "ganttStep x (int (length pre)) (chart, cur) = (chart1, cur1)"
    by (cases "ganttStep x (int (length pre)) (chart, cur)")
  have "ganttInv (pre @ [x]) (chart1, cur1)" using ganttInv_step[OF Cons.prems, of x] st by simp
  from Cons.IH[OF this] obtain chart' cur' where
    "ganttInv ((pre @ [x]) @ rest) (chart', cur')"
    "buildGanttChart_loop rest (int (length (pre @ [x]))) chart1 cur1 = openEntries chart' cur'"
    by blast
  then show ?case using st by (auto simp: loop_step add.commute)
qed

lemma buildGanttChart_inv:
  "\<exists>chart' cur'. ganttInv tline (chart', cur') \<and> buildGanttChart tline = openEntries chart' cur'"
proof (cases "tline = []")
  case True
  then show ?thesis using ganttInv_init by (auto simp: buildGanttChart_def openEntries_def)
next
  case False
  from loop_inv[OF ganttInv_init, of tline] False show ?thesis
    by (simp add: buildGanttChart_def)
qed


lemma buildGanttChart_sorted: "sorted_wrt (\<lambda>a b. endT a \<le> start b) (buildGanttChart tline)"
proof -
  obtain chart' cur' where "ganttInv tline (chart', cur')"
    "buildGanttChart tline = openEntries chart' cur'"
    using buildGanttChart_inv by blast
  then show ?thesis by (simp add: ganttInv_def)
qed

lemma buildGanttChart_bounds:
  "g \<in> set (buildGanttChart tline) \<Longrightarrow> 0 \<le> start g \<and> start g < endT g \<and> endT g \<le> int (length tline)"
proof -
  assume g: "g \<in> set (buildGanttChart tline)"
  obtain chart' cur' where "ganttInv tline (chart', cur')"
    "buildGanttChart tline = openEntries chart' cur'"
    using buildGanttChart_inv by blast
  then show ?thesis using g by (simp add: ganttInv_def)
qed

text \<open>
  C6 (amended): for every per-tick timeline the builder returns the ordered list of the
  maximal runs of consecutive ticks that carry the same process name. Every entry is a
  non-empty interval of the timeline with the name and colour of its first tick; the entries
  are in order and do not overlap; two entries that touch have different names (a change of
  name closes a segment, and entries that do not touch are separated by idle ticks); and a
  tick ran the name \<open>n\<close> exactly when an entry named \<open>n\<close> covers it, so that no idle tick
  is covered and the last open segment is flushed. Ticks are told apart by process name:
  the slots of the timeline carry no process id.
\<close>

theorem C6_timeline_builder:
  "(\<forall>g\<in>set (buildGanttChart tline).
      0 \<le> start g \<and> start g < endT g \<and> endT g \<le> int (length tline) \<and>
      tline ! nat (start g) = Some (processName g, colorG g)) \<and>
   sorted_wrt (\<lambda>a b. endT a \<le> start b) (buildGanttChart tline) \<and>
   successively (\<lambda>a b. endT a = start b \<longrightarrow> processName a \<noteq> processName b)
     (buildGanttChart tline) \<and>
   (\<forall>k<length tline. \<forall>n.
      (\<exists>c. tline ! k = Some (n, c)) \<longleftrightarrow>
      (\<exists>g\<in>set (buildGanttChart tline). processName g = n \<and> start g \<le> int k \<and> int k < endT g))"
proof -
  obtain chart' cur' where inv: "ganttInv tline (chart', cur')"
    and eq: "buildGanttChart tline = openEntries chart' cur'"
    using buildGanttChart_inv by blast
  from inv have
    A: "\<forall>g\<in>set (openEntries chart' cur'). 0 \<le> start g \<and> start g < endT g \<and> endT g \<le> int (length tline)"
    and B: "sorted_wrt (\<lambda>a b. endT a \<le> start b) (openEntries chart' cur')"
    and D: "successively (\<lambda>a b. endT a = start b \<longrightarrow> processName a \<noteq> processName b)
          (openEntries chart' cur')"
    and C: "\<forall>k<length tline. \<forall>n. (\<exists>c. tline ! k = Some (n, c)) \<longleftrightarrow>
            (\<exists>g\<in>set (openEntries chart' cur'). processName g = n \<and> covers g (int k))"
    and G: "\<forall>g\<in>set (openEntries chart' cur'). tline ! nat (start g) = Some (processName g, colorG g)"
    by (simp_all add: ganttInv_def)
  from A G have AG: "\<forall>g\<in>set (buildGanttChart tline).
      0 \<le> start g \<and> start g < endT g \<and> endT g \<le> int (length tline) \<and>
      tline ! nat (start g) = Some (processName g, colorG g)"
    unfolding eq by blast
  from C have C': "\<forall>k<length tline. \<forall>n.
      (\<exists>c. tline ! k = Some (n, c)) \<longleftrightarrow>
      (\<exists>g\<in>set (buildGanttChart tline). processName g = n \<and> start g \<le> int k \<and> int k < endT g)"
    unfolding eq covers_def by simp
  from AG B D C' show ?thesis unfolding eq by blast
qed

text \<open>The amended C6 on the timeline P1, P1, idle, P2: tick 3 is covered by the entry of P2.\<close>

theorem C6_timeline_builder_witness:
  "buildGanttChart [Some (''P1'', ''c1''), Some (''P1'', ''c1''), None, Some (''P2'', ''c2'')] =
     [\<lparr> processName = ''P1'', start = 0, endT = 2, colorG = ''c1'' \<rparr>,
      \<lparr> processName = ''P2'', start = 3, endT = 4, colorG = ''c2'' \<rparr>] \<and>
   (\<exists>g\<in>set (buildGanttChart [Some (''P1'', ''c1''), Some (''P1'', ''c1''), None, Some (''P2'', ''c2'')]).
       processName g = ''P2'' \<and> start g \<le> 3 \<and> 3 < endT g)"
proof -
  let ?tl = "[Some (''P1'', ''c1''), Some (''P1'', ''c1''), None, Some (''P2'', ''c2'')]"
  have cov: "\<forall>k<length ?tl. \<forall>n.
      (\<exists>c. ?tl ! k = Some (n, c)) \<longleftrightarrow>
      (\<exists>g\<in>set (buildGanttChart ?tl). processName g = n \<and> start g \<le> int k \<and> int k < endT g)"
    using C6_timeline_builder[of ?tl] by blast
  have "3 < length ?tl" by simp
  moreover have "\<exists>c. ?tl ! 3 = Some (''P2'', c)" by simp
  ultimately have "\<exists>g\<in>set (buildGanttChart ?tl). processName g = ''P2'' \<and> start g \<le> int 3 \<and> int 3 < endT g"
    using cov by blast
  moreover have "buildGanttChart ?tl =
     [\<lparr> processName = ''P1'', start = 0, endT = 2, colorG = ''c1'' \<rparr>,
      \<lparr> processName = ''P2'', start = 3, endT = 4, colorG = ''c2'' \<rparr>]"
    by (simp add: buildGanttChart_def)
  ultimately show ?thesis by simp
qed

text \<open>
  C6 (as stated) fails: two distinct processes (ids 1 and 2) that have the same name run one
  tick each, one after the other, and the chart has the single segment [0,2).
\<close>

theorem C6_same_name_processes_merged:
  "segments (runFCFS [newProcess 1 ''P'' ''c1'' 0 1 None, newProcess 2 ''P'' ''c2'' 0 1 None])
   = [(''P'', 0, 2)]"
  by code_simp

section \<open>Lists, counting and sorting\<close>

lemma map_update_same: "f y = f (xs ! i) \<Longrightarrow> map f (xs[i := y]) = map f xs"
  by (metis list_update_beyond list_update_id map_update not_le_imp_less nth_map length_map)

lemma count_list_update_new:
  "i < length xs \<Longrightarrow> xs ! i \<noteq> y \<Longrightarrow> count_list (xs[i := y]) y = count_list xs y + 1"
proof (induction xs arbitrary: i)
  case Nil
  then show ?case by simp
next
  case (Cons x xs)
  then show ?case by (cases i) auto
qed

lemma count_list_update_other:
  "xs ! i \<noteq> z \<Longrightarrow> y \<noteq> z \<Longrightarrow> count_list (xs[i := y]) z = count_list xs z"
proof (induction xs arbitrary: i)
  case Nil
  then show ?case by simp
next
  case (Cons x xs)
  then show ?case by (cases i) auto
qed

lemma count_list_less_ex:
  "count_list xs y < length xs \<Longrightarrow> \<exists>i<length xs. xs ! i \<noteq> y"
proof (induction xs)
  case Nil
  then show ?case by simp
next
  case (Cons x xs)
  show ?case
  proof (cases "x = y")
    case True
    with Cons obtain i where "i < length xs" "xs ! i \<noteq> y" by auto
    then have "Suc i < length (x # xs) \<and> (x # xs) ! Suc i \<noteq> y" by simp
    then show ?thesis by blast
  next
    case False
    then have "0 < length (x # xs) \<and> (x # xs) ! 0 \<noteq> y" by simp
    then show ?thesis by blast
  qed
qed



lemma repeatN_keeps: "(\<And>s. g (f s) = g s) \<Longrightarrow> g (repeatN k f s) = g s"
  by (induction k arbitrary: s) simp_all

lemma repeatN_clock:
  "(\<And>s. currentTime (f s) = currentTime s + 1) \<Longrightarrow>
   currentTime (repeatN k f s) = currentTime s + int k"
  by (induction k arbitrary: s) simp_all

lemma set_insertBy: "set (insertBy cmp x ys) = insert x (set ys)"
  by (induction ys) auto

lemma set_sortBy: "set (sortBy cmp xs) = set xs"
  by (induction xs) (simp_all add: sortBy_def set_insertBy)

lemma distinct_insertBy: "distinct (insertBy cmp x ys) \<longleftrightarrow> x \<notin> set ys \<and> distinct ys"
  by (induction ys) (auto simp: set_insertBy)

lemma distinct_sortBy: "distinct (sortBy cmp xs) \<longleftrightarrow> distinct xs"
  by (induction xs) (simp_all add: sortBy_def distinct_insertBy set_insertBy[unfolded sortBy_def] set_sortBy[unfolded sortBy_def])



lemma reduce_in_set:
  assumes "\<And>a b. f a b = a \<or> f a b = b" and "reduce f xs = Some y"
  shows "y \<in> set xs"
proof -
  have fold: "\<And>a. foldl f a zs \<in> insert a (set zs)" for zs
  proof (induction zs)
    case Nil
    show ?case by simp
  next
    case (Cons z zs)
    from Cons[of "f a z"] assms(1)[of a z] show ?case by auto
  qed
  from assms(2) show ?thesis by (cases xs) (use fold in auto)
qed

lemma reduce_None: "reduce f xs = None \<longleftrightarrow> xs = []"
  by (cases xs) simp_all

lemma maxArrival_ge: "p \<in> set ps \<Longrightarrow> arrivalTime p \<le> maxArrival ps"
  by (induction ps) (auto simp: maxArrival_def)

section \<open>What the steps of the generators leave unchanged\<close>

lemma emit_fields [simp]:
  "localProcesses (emit t rp rq snap msg s) = localProcesses s"
  "currentTime (emit t rp rq snap msg s) = currentTime s"
  "completed (emit t rp rq snap msg s) = completed s"
  "readyQueue (emit t rp rq snap msg s) = readyQueue s"
  "runningProcess (emit t rp rq snap msg s) = runningProcess s"
  "quantumCounter (emit t rp rq snap msg s) = quantumCounter s"
  "queue (emit t rp rq snap msg s) = queue s"
  "stopped (emit t rp rq snap msg s) = stopped s"
  "message (emit t rp rq snap msg s) = message s"
  by (simp_all add: emit_def)

lemma decRemaining_fields [simp]:
  "currentTime (decRemaining i s) = currentTime s"
  "completed (decRemaining i s) = completed s"
  "readyQueue (decRemaining i s) = readyQueue s"
  "runningProcess (decRemaining i s) = runningProcess s"
  "quantumCounter (decRemaining i s) = quantumCounter s"
  "queue (decRemaining i s) = queue s"
  "stopped (decRemaining i s) = stopped s"
  "message (decRemaining i s) = message s"
  "length (localProcesses (decRemaining i s)) = length (localProcesses s)"
  by (simp_all add: decRemaining_def)

lemma decRemaining_maps [simp]:
  "map arrivalTime (localProcesses (decRemaining i s)) = map arrivalTime (localProcesses s)"
  "map burstTime (localProcesses (decRemaining i s)) = map burstTime (localProcesses s)"
  "map state (localProcesses (decRemaining i s)) = map state (localProcesses s)"
  "map pid (localProcesses (decRemaining i s)) = map pid (localProcesses s)"
  "map name (localProcesses (decRemaining i s)) = map name (localProcesses s)"
  by (simp_all add: decRemaining_def map_update_same)

lemma complete_fields [simp]:
  "currentTime (complete i t s) = currentTime s"
  "completed (complete i t s) = completed s + 1"
  "readyQueue (complete i t s) = readyQueue s"
  "runningProcess (complete i t s) = runningProcess s"
  "queue (complete i t s) = queue s"
  "stopped (complete i t s) = stopped s"
  "length (localProcesses (complete i t s)) = length (localProcesses s)"
  by (simp_all add: complete_def)

lemma commitMetrics_fields [simp]:
  "arrivalTime (commitMetrics t p) = arrivalTime p"
  "burstTime (commitMetrics t p) = burstTime p"
  "remainingTime (commitMetrics t p) = remainingTime p"
  "state (commitMetrics t p) = state p"
  "pid (commitMetrics t p) = pid p"
  "name (commitMetrics t p) = name p"
  "color (commitMetrics t p) = color p"
  "priority (commitMetrics t p) = priority p"
  "completionTime (commitMetrics t p) = t"
  "turnaroundTime (commitMetrics t p) = t - arrivalTime p"
  "waitingTime (commitMetrics t p) = t - arrivalTime p - burstTime p"
  by (simp_all add: commitMetrics_def Let_def)

lemma map_update_nth: "(map f xs)[i := f (xs ! i)] = map f xs"
  by (metis list_update_beyond list_update_id not_le_imp_less nth_map length_map)

lemma complete_maps [simp]:
  "map arrivalTime (localProcesses (complete i t s)) = map arrivalTime (localProcesses s)"
  "map burstTime (localProcesses (complete i t s)) = map burstTime (localProcesses s)"
  "map remainingTime (localProcesses (complete i t s)) = map remainingTime (localProcesses s)"
  "map state (localProcesses (complete i t s)) = (map state (localProcesses s))[i := Completed]"
  by (simp_all add: complete_def map_update map_update_nth)

lemma finalEvent_last:
  "yielded (finalEvent s) \<noteq> [] \<and>
   eventMessage (last (yielded (finalEvent s))) = ''All processes complete.''"
  by (simp add: finalEvent_def emit_def)

section \<open>simulateFCFS returns\<close>

lemma sfcfs_idle_fields [simp]:
  "queue (sfcfs_idle s) = queue s" "stopped (sfcfs_idle s) = stopped s"
  by (simp_all add: sfcfs_idle_def)

lemma sfcfs_tick_fields [simp]:
  "queue (sfcfs_tick i s) = queue s" "stopped (sfcfs_tick i s) = stopped s"
  by (simp_all add: sfcfs_tick_def Let_def)

lemma sfcfs_body_Nil: "queue s = [] \<Longrightarrow> stopped (sfcfs_body s) \<and> queue (sfcfs_body s) = []"
  by (simp add: sfcfs_body_def)

lemma sfcfs_body_Cons:
  "queue s = i # rest \<Longrightarrow> queue (sfcfs_body s) = rest \<and> stopped (sfcfs_body s) = stopped s"
  by (simp add: sfcfs_body_def Let_def repeatN_keeps)

lemma sfcfs_loop_returns:
  "\<exists>t. while_loop (\<lambda>s. completed s < n \<and> \<not> stopped s) sfcfs_body s0 = Some t"
proof (rule while_loop_terminates
    [where I = "\<lambda>s. True" and R = "measure (\<lambda>s::locals. length (queue s) + (if stopped s then 0 else 1))"])
  show "wf (measure (\<lambda>s::locals. length (queue s) + (if stopped s then 0 else 1)))" by simp
  show True by simp
  fix s :: locals assume "completed s < n \<and> \<not> stopped s"
  then have ns: "\<not> stopped s" by simp
  show "True \<and> (sfcfs_body s, s) \<in> measure (\<lambda>s::locals. length (queue s) + (if stopped s then 0 else 1))"
  proof (cases "queue s")
    case Nil
    then show ?thesis using ns sfcfs_body_Nil[of s] by simp
  next
    case (Cons i rest)
    then show ?thesis using ns sfcfs_body_Cons[of s i rest] by simp
  qed
qed

lemma simulateFCFS_returns:
  "ps \<noteq> [] \<Longrightarrow> \<exists>evs. simulateFCFS ps = Some evs \<and> evs \<noteq> [] \<and>
      eventMessage (last evs) = ''All processes complete.''"
  using sfcfs_loop_returns[of "length ps" "(initLocals (sortBy cmpArrivalId ps))\<lparr>queue := [0..<length ps]\<rparr>"]
    finalEvent_last
  by (auto simp: simulateFCFS_def)

section \<open>simulateSJF and simulatePriorityNonPreemptive return\<close>

lemma snp_tick_fields [simp]:
  "completed (snp_tick i s) = completed s"
  "currentTime (snp_tick i s) = currentTime s + 1"
  "map arrivalTime (localProcesses (snp_tick i s)) = map arrivalTime (localProcesses s)"
  "map state (localProcesses (snp_tick i s)) = map state (localProcesses s)"
  by (simp_all add: snp_tick_def Let_def)

lemma snp_idle_fields [simp]:
  "completed (snp_idle s) = completed s"
  "currentTime (snp_idle s) = currentTime s + 1"
  "localProcesses (snp_idle s) = localProcesses s"
  by (simp_all add: snp_idle_def Let_def)

lemma snp_execute_fields:
  "completed (snp_execute why i s) = completed s + 1"
  "map arrivalTime (localProcesses (snp_execute why i s)) = map arrivalTime (localProcesses s)"
  "map state (localProcesses (snp_execute why i s)) = (map state (localProcesses s))[i := Completed]"
proof -
  let ?s1 = "s\<lparr>message := message s @ ''CPU selects '' @ name (localProcesses s ! i) @ why\<rparr>"
  let ?s2 = "repeatN (nat (burstTime (localProcesses s ! i))) (snp_tick i) ?s1"
  have c: "completed ?s2 = completed ?s1" by (rule repeatN_keeps) simp
  have a: "map arrivalTime (localProcesses ?s2) = map arrivalTime (localProcesses ?s1)"
    by (rule repeatN_keeps[where g = "\<lambda>s. map arrivalTime (localProcesses s)"]) simp
  have st: "map state (localProcesses ?s2) = map state (localProcesses ?s1)"
    by (rule repeatN_keeps[where g = "\<lambda>s. map state (localProcesses s)"]) simp
  show "completed (snp_execute why i s) = completed s + 1"
    using c by (simp add: snp_execute_def Let_def)
  show "map arrivalTime (localProcesses (snp_execute why i s)) = map arrivalTime (localProcesses s)"
    using a by (simp add: snp_execute_def Let_def)
  show "map state (localProcesses (snp_execute why i s)) = (map state (localProcesses s))[i := Completed]"
    using st by (simp add: snp_execute_def Let_def)
qed

lemma snp_body_step:
  assumes choice: "\<And>lp a b. pick lp a b = a \<or> pick lp a b = b"
    and inv: "snpInv ps s" and cond: "completed s < length ps"
  shows "snpInv ps (snp_body pick why s) \<and>
         (snp_body pick why s, s) \<in> inv_image (less_than <*lex*> less_than)
            (\<lambda>s. (length ps - completed s, nat (maxArrival ps - currentTime s)))"
proof -
  let ?s0 = "s\<lparr>message := arrivalNote s\<rparr>"
  let ?rq = "indicesWhere (\<lambda>p. arrivalTime p \<le> currentTime ?s0 \<and> state p \<noteq> Completed)
               (localProcesses ?s0)"
  from inv have arr: "map arrivalTime (localProcesses s) = map arrivalTime ps"
    and cnt: "completed s = count_list (map state (localProcesses s)) Completed"
    by (simp_all add: snpInv_def)
  from arr have len: "length (localProcesses s) = length ps" by (metis length_map)
  show ?thesis
  proof (cases "reduce (pick (localProcesses ?s0)) ?rq")
    case None
    then have body: "snp_body pick why s = snp_idle ?s0" by (simp add: snp_body_def Let_def)
    from None have empty: "?rq = []" by (simp add: reduce_None)
    from cond cnt len have "count_list (map state (localProcesses s)) Completed
        < length (map state (localProcesses s))" by simp
    then obtain i where i: "i < length (localProcesses s)" "state (localProcesses s ! i) \<noteq> Completed"
      using count_list_less_ex[of "map state (localProcesses s)" Completed] by auto
    have "i \<notin> set ?rq" using empty by simp
    then have late: "currentTime s < arrivalTime (localProcesses s ! i)"
      using i by (simp add: set_indicesWhere)
    have "arrivalTime (localProcesses s ! i) = arrivalTime (ps ! i)"
      using arr i by (metis nth_map len)
    moreover have "arrivalTime (ps ! i) \<le> maxArrival ps"
      using i len by (simp add: maxArrival_ge)
    ultimately have "currentTime s < maxArrival ps" using late by simp
    then show ?thesis using inv by (simp add: body snpInv_def)
  next
    case (Some i)
    then have body: "snp_body pick why s = snp_execute why i ?s0" by (simp add: snp_body_def Let_def)
    from Some choice have "i \<in> set ?rq" by (rule reduce_in_set[rotated])
    then have i: "i < length (localProcesses s)" "state (localProcesses s ! i) \<noteq> Completed"
      by (simp_all add: set_indicesWhere)
    have "count_list ((map state (localProcesses s))[i := Completed]) Completed
       = count_list (map state (localProcesses s)) Completed + 1"
      by (rule count_list_update_new) (use i in simp_all)
    then have "snpInv ps (snp_execute why i ?s0)"
      using arr cnt by (simp add: snpInv_def snp_execute_fields)
    moreover have "length ps - Suc (completed s) < length ps - completed s" using cond by arith
    ultimately show ?thesis by (simp add: body snp_execute_fields)
  qed
qed

lemma snp_run_returns:
  assumes choice: "\<And>lp a b. pick lp a b = a \<or> pick lp a b = b"
    and ne: "ps \<noteq> []" and fresh: "\<forall>p\<in>set ps. state p \<noteq> Completed"
  shows "\<exists>evs. snp_run pick why ps = Some evs \<and> evs \<noteq> [] \<and>
      eventMessage (last evs) = ''All processes complete.''"
proof -
  have "count_list (map state ps) Completed = 0" using fresh by (induction ps) auto
  then have init: "snpInv ps (initLocals ps)" by (simp add: snpInv_def initLocals_def)
  have "\<exists>t. while_loop (\<lambda>s. completed s < length ps) (snp_body pick why) (initLocals ps) = Some t"
  proof (rule while_loop_terminates[where I = "snpInv ps"])
    show "wf (inv_image (less_than <*lex*> less_than)
            (\<lambda>s::locals. (length ps - completed s, nat (maxArrival ps - currentTime s))))"
      by (intro wf_inv_image wf_lex_prod wf_less_than)
    show "snpInv ps (initLocals ps)" by (rule init)
    fix s :: locals assume a: "snpInv ps s" "completed s < length ps"
    show "snpInv ps (snp_body pick why s) \<and>
         (snp_body pick why s, s) \<in> inv_image (less_than <*lex*> less_than)
            (\<lambda>s. (length ps - completed s, nat (maxArrival ps - currentTime s)))"
      by (rule snp_body_step[where pick = pick, OF choice a])
  qed
  then show ?thesis using ne finalEvent_last by (auto simp: snp_run_def)
qed

lemma sim_sjf_shorter_choice: "sim_sjf_shorter lp a b = a \<or> sim_sjf_shorter lp a b = b"
  by (simp add: sim_sjf_shorter_def)

lemma sim_prio_higher_choice: "sim_prio_higher lp a b = a \<or> sim_prio_higher lp a b = b"
  by (simp add: sim_prio_higher_def Let_def)

section \<open>simulateSRTF and simulatePriorityPreemptive return\<close>

lemma sum_list_update_int:
  "i < length xs \<Longrightarrow> sum_list (xs[i := y]) = sum_list xs - xs ! i + (y::int)"
proof (induction xs arbitrary: i)
  case Nil
  then show ?case by simp
next
  case (Cons x xs)
  then show ?case by (cases i) auto
qed

lemma sum_list_nonneg_int: "\<forall>r\<in>set xs. 0 \<le> r \<Longrightarrow> 0 \<le> sum_list (xs::int list)"
  by (induction xs) auto

lemma decRemaining_remaining:
  "map remainingTime (localProcesses (decRemaining i s)) =
     (map remainingTime (localProcesses s))[i := remainingTime (localProcesses s ! i) - 1]"
  by (simp add: decRemaining_def map_update)

lemma sp_announce_fields [simp]:
  "localProcesses (sp_announce why i s) = localProcesses s"
  "completed (sp_announce why i s) = completed s"
  "currentTime (sp_announce why i s) = currentTime s"
  by (simp_all add: sp_announce_def Let_def split: option.splits)

lemma sp_yield_fields [simp]:
  "localProcesses (sp_yield rp rq s) = localProcesses s"
  "completed (sp_yield rp rq s) = completed s"
  "currentTime (sp_yield rp rq s) = currentTime s + 1"
  by (simp_all add: sp_yield_def Let_def)

lemma sp_execute_fields:
  assumes "i < length (localProcesses s)"
  shows "map arrivalTime (localProcesses (sp_execute i s)) = map arrivalTime (localProcesses s)"
    and "map remainingTime (localProcesses (sp_execute i s)) =
           (map remainingTime (localProcesses s))[i := remainingTime (localProcesses s ! i) - 1]"
    and "completed (sp_execute i s) =
           completed s + (if remainingTime (localProcesses s ! i) - 1 = 0 then 1 else 0)"
    and "currentTime (sp_execute i s) = currentTime s"
proof -
  have r: "remainingTime (localProcesses (decRemaining i s) ! i) = remainingTime (localProcesses s ! i) - 1"
    using assms by (simp add: decRemaining_def)
  show "map arrivalTime (localProcesses (sp_execute i s)) = map arrivalTime (localProcesses s)"
    by (simp add: sp_execute_def Let_def map_update_same)
  show "map remainingTime (localProcesses (sp_execute i s)) =
           (map remainingTime (localProcesses s))[i := remainingTime (localProcesses s ! i) - 1]"
    by (simp add: sp_execute_def Let_def map_update_same decRemaining_remaining)
  show "completed (sp_execute i s) =
           completed s + (if remainingTime (localProcesses s ! i) - 1 = 0 then 1 else 0)"
    using r by (simp add: sp_execute_def Let_def)
  show "currentTime (sp_execute i s) = currentTime s"
    by (simp add: sp_execute_def Let_def)
qed

lemma tick_remaining:
  fixes xs :: "int list"
  assumes "i < length xs" and "0 < xs ! i" and "\<forall>r\<in>set xs. 0 \<le> r"
  shows "\<forall>r\<in>set (xs[i := xs ! i - 1]). 0 \<le> r"
    and "count_list (xs[i := xs ! i - 1]) 0 = count_list xs 0 + (if xs ! i - 1 = 0 then 1 else 0)"
    and "nat (sum_list (xs[i := xs ! i - 1])) < nat (sum_list xs)"
proof -
  show nn: "\<forall>r\<in>set (xs[i := xs ! i - 1]). 0 \<le> r"
  proof
    fix r assume "r \<in> set (xs[i := xs ! i - 1])"
    then have "r = xs ! i - 1 \<or> r \<in> set xs" using set_update_subset_insert[of xs i "xs ! i - 1"] by auto
    then show "0 \<le> r" using assms(2,3) by auto
  qed
  show "count_list (xs[i := xs ! i - 1]) 0 = count_list xs 0 + (if xs ! i - 1 = 0 then 1 else 0)"
  proof (cases "xs ! i - 1 = 0")
    case True
    have "count_list (xs[i := 0]) 0 = count_list xs 0 + 1"
      by (rule count_list_update_new) (use assms in auto)
    with True show ?thesis by simp
  next
    case False
    have "count_list (xs[i := xs ! i - 1]) 0 = count_list xs 0"
      by (rule count_list_update_other) (use assms False in auto)
    with False show ?thesis by simp
  qed
  have "sum_list (xs[i := xs ! i - 1]) = sum_list xs - 1"
    using sum_list_update_int[OF assms(1), of "xs ! i - 1"] by simp
  moreover have "0 \<le> sum_list (xs[i := xs ! i - 1])" using nn by (rule sum_list_nonneg_int)
  ultimately show "nat (sum_list (xs[i := xs ! i - 1])) < nat (sum_list xs)" by simp
qed

lemma unfinished_exists:
  fixes xs :: "int list"
  assumes "count_list xs 0 < length xs" and "\<forall>r\<in>set xs. 0 \<le> r"
  shows "\<exists>i<length xs. 0 < xs ! i"
proof -
  from count_list_less_ex[OF assms(1)] obtain i where i: "i < length xs" "xs ! i \<noteq> 0" by blast
  with assms(2) have "0 \<le> xs ! i" by simp
  with i show ?thesis by force
qed

lemma sp_body_step:
  assumes choice: "\<And>lp a b. pick lp a b = a \<or> pick lp a b = b"
    and inv: "spInv ps s" and cond: "completed s < length ps"
  shows "spInv ps (sp_body pick why s) \<and>
         (sp_body pick why s, s) \<in> inv_image (less_than <*lex*> less_than)
            (\<lambda>s. (remainingSum s, nat (maxArrival ps - currentTime s)))"
proof -
  let ?s0 = "s\<lparr>message := arrivalNote s\<rparr>"
  let ?rq = "indicesWhere (\<lambda>p. arrivalTime p \<le> currentTime ?s0 \<and> remainingTime p > 0)
               (localProcesses ?s0)"
  let ?rem = "map remainingTime (localProcesses s)"
  from inv have arr: "map arrivalTime (localProcesses s) = map arrivalTime ps"
    and nn: "\<forall>r\<in>set ?rem. 0 \<le> r"
    and cnt: "completed s = count_list ?rem 0"
    by (simp_all add: spInv_def)
  from arr have len: "length (localProcesses s) = length ps" by (metis length_map)
  show ?thesis
  proof (cases "reduce (pick (localProcesses ?s0)) ?rq")
    case None
    then have body: "sp_body pick why s = sp_yield None ?rq (?s0\<lparr>message := message ?s0 @ ''CPU is idle.''\<rparr>)"
      by (simp add: sp_body_def Let_def)
    from None have empty: "?rq = []" by (simp add: reduce_None)
    from cond cnt len have "count_list ?rem 0 < length ?rem" by simp
    from unfinished_exists[OF this nn] obtain i where
      i: "i < length (localProcesses s)" "0 < remainingTime (localProcesses s ! i)" by auto
    have "i \<notin> set ?rq" using empty by simp
    then have late: "currentTime s < arrivalTime (localProcesses s ! i)"
      using i by (simp add: set_indicesWhere)
    have "arrivalTime (localProcesses s ! i) = arrivalTime (ps ! i)"
      using arr i by (metis nth_map len)
    moreover have "arrivalTime (ps ! i) \<le> maxArrival ps"
      using i len by (simp add: maxArrival_ge)
    ultimately have "currentTime s < maxArrival ps" using late by simp
    then show ?thesis using inv by (simp add: body spInv_def remainingSum_def)
  next
    case (Some i)
    then have body: "sp_body pick why s = sp_yield (Some i) ?rq (sp_execute i (sp_announce why i ?s0))"
      by (simp add: sp_body_def Let_def)
    from Some choice have "i \<in> set ?rq" by (rule reduce_in_set[rotated])
    then have i: "i < length ?rem" "0 < ?rem ! i"
      by (simp_all add: set_indicesWhere)
    have il: "i < length (localProcesses (sp_announce why i ?s0))" using i by simp
    note ex = sp_execute_fields[OF il]
    have rem': "map remainingTime (localProcesses (sp_body pick why s)) = ?rem[i := ?rem ! i - 1]"
      using i by (simp add: body ex)
    have cmp': "completed (sp_body pick why s) = completed s + (if ?rem ! i - 1 = 0 then 1 else 0)"
      using i by (simp add: body ex)
    have arr': "map arrivalTime (localProcesses (sp_body pick why s)) = map arrivalTime ps"
      using arr by (simp add: body ex)
    note tk = tick_remaining[OF i nn]
    have "spInv ps (sp_body pick why s)"
      unfolding spInv_def rem' cmp' arr' using tk(1,2) cnt by simp
    moreover have "remainingSum (sp_body pick why s) < remainingSum s"
      unfolding remainingSum_def rem' using tk(3) .
    ultimately show ?thesis by simp
  qed
qed

lemma sp_run_returns:
  assumes choice: "\<And>lp a b. pick lp a b = a \<or> pick lp a b = b"
    and ne: "ps \<noteq> []" and fresh: "\<forall>p\<in>set ps. 0 < remainingTime p"
  shows "\<exists>evs. sp_run pick why ps = Some evs \<and> evs \<noteq> [] \<and>
      eventMessage (last evs) = ''All processes complete.''"
proof -
  have "count_list (map remainingTime ps) 0 = 0" using fresh by (induction ps) auto
  moreover have "\<forall>r\<in>set (map remainingTime ps). 0 \<le> r" using fresh by auto
  ultimately have init: "spInv ps (initLocals ps)" by (simp add: spInv_def initLocals_def)
  have "\<exists>t. while_loop (\<lambda>s. completed s < length ps) (sp_body pick why) (initLocals ps) = Some t"
  proof (rule while_loop_terminates[where I = "spInv ps"])
    show "wf (inv_image (less_than <*lex*> less_than)
            (\<lambda>s::locals. (remainingSum s, nat (maxArrival ps - currentTime s))))"
      by (intro wf_inv_image wf_lex_prod wf_less_than)
    show "spInv ps (initLocals ps)" by (rule init)
    fix s :: locals assume a: "spInv ps s" "completed s < length ps"
    show "spInv ps (sp_body pick why s) \<and>
         (sp_body pick why s, s) \<in> inv_image (less_than <*lex*> less_than)
            (\<lambda>s. (remainingSum s, nat (maxArrival ps - currentTime s)))"
      by (rule sp_body_step[where pick = pick, OF choice a])
  qed
  then show ?thesis using ne finalEvent_last by (auto simp: sp_run_def)
qed

lemma sim_srtf_shorter_choice: "sim_srtf_shorter lp a b = a \<or> sim_srtf_shorter lp a b = b"
  by (simp add: sim_srtf_shorter_def)

section \<open>The queue discipline of Round Robin\<close>

lemma rrCore_retire_done:
  assumes "rrCore ps b False rem rq (Some r) c" and "rem ! r = 0"
  shows "rrCore ps b True rem rq None (c + 1)"
  using assms unfolding rrCore_def by auto

lemma rrCore_retire_expired:
  assumes "rrCore ps b False rem rq (Some r) c" and "rem ! r \<noteq> 0"
  shows "rrCore ps b True rem (rq @ [r]) None c"
  using assms unfolding rrCore_def by (auto simp: order.strict_iff_order)

lemma rrCore_retire_keep:
  assumes "rrCore ps b False rem rq (Some r) c" and "rem ! r \<noteq> 0"
  shows "rrCore ps b True rem rq (Some r) c"
  using assms unfolding rrCore_def by (auto simp: order.strict_iff_order)

lemma rrCore_retire_none:
  assumes "rrCore ps b False rem rq None c"
  shows "rrCore ps b True rem rq None c"
  using assms unfolding rrCore_def by auto

lemma rrCore_dispatch:
  assumes "rrCore ps b True rem (h # rest) None c"
  shows "rrCore ps b True rem rest (Some h) c"
  using assms unfolding rrCore_def by auto

lemma rrCore_idle:
  assumes "rrCore ps b True rem rq None c"
  shows "rrCore ps b False rem rq None c"
  using assms unfolding rrCore_def by auto

lemma rrCore_arrive:
  assumes core: "rrCore ps b True rem rq run c"
    and new: "set new = {i. i < length ps \<and> arrivalTime (ps ! i) = b}" "distinct new"
    and burst: "\<forall>p\<in>set ps. 0 < burstTime p"
  shows "rrCore ps (b + 1) True rem (rq @ new) run c"
proof -
  from core have len: "length rem = length ps"
    and bnd: "\<forall>i<length ps. 0 \<le> rem ! i \<and> rem ! i \<le> burstTime (ps ! i)"
    and dst: "distinct rq"
    and mem: "\<forall>i\<in>set rq. i < length ps \<and> 0 < rem ! i \<and> arrivalTime (ps ! i) < b"
    and run: "\<forall>r. run = Some r \<longrightarrow>
        r < length ps \<and> r \<notin> set rq \<and> arrivalTime (ps ! r) < b \<and> (True \<longrightarrow> 0 < rem ! r)"
    and arrived: "\<forall>i<length ps. arrivalTime (ps ! i) < b \<longrightarrow>
        (rem ! i = 0 \<and> run \<noteq> Some i) \<or> i \<in> set rq \<or> run = Some i"
    and notyet: "\<forall>i<length ps. b \<le> arrivalTime (ps ! i) \<longrightarrow> rem ! i = burstTime (ps ! i)"
    and cnt: "c + (case run of Some r \<Rightarrow> if rem ! r = 0 then 1 else 0 | None \<Rightarrow> 0) = count_list rem 0"
    unfolding rrCore_def by blast+
  have d': "distinct (rq @ new)" using dst new mem by auto
  have m': "\<forall>i\<in>set (rq @ new). i < length ps \<and> 0 < rem ! i \<and> arrivalTime (ps ! i) < b + 1"
  proof
    fix i assume "i \<in> set (rq @ new)"
    then consider "i \<in> set rq" | "i < length ps" "arrivalTime (ps ! i) = b" using new by auto
    then show "i < length ps \<and> 0 < rem ! i \<and> arrivalTime (ps ! i) < b + 1"
    proof cases
      case 1
      with mem show ?thesis by force
    next
      case 2
      with notyet have "rem ! i = burstTime (ps ! i)" by simp
      moreover have "0 < burstTime (ps ! i)" using burst 2(1) by simp
      ultimately show ?thesis using 2 by simp
    qed
  qed
  have r': "\<forall>r. run = Some r \<longrightarrow>
        r < length ps \<and> r \<notin> set (rq @ new) \<and> arrivalTime (ps ! r) < b + 1 \<and> (True \<longrightarrow> 0 < rem ! r)"
    using run new by auto
  have a': "\<forall>i<length ps. arrivalTime (ps ! i) < b + 1 \<longrightarrow>
        (rem ! i = 0 \<and> run \<noteq> Some i) \<or> i \<in> set (rq @ new) \<or> run = Some i"
  proof (intro allI impI)
    fix i assume i: "i < length ps" "arrivalTime (ps ! i) < b + 1"
    show "(rem ! i = 0 \<and> run \<noteq> Some i) \<or> i \<in> set (rq @ new) \<or> run = Some i"
    proof (cases "arrivalTime (ps ! i) < b")
      case True
      with arrived i show ?thesis by auto
    next
      case False
      with i have "arrivalTime (ps ! i) = b" by simp
      with i new show ?thesis by simp
    qed
  qed
  have n': "\<forall>i<length ps. b + 1 \<le> arrivalTime (ps ! i) \<longrightarrow> rem ! i = burstTime (ps ! i)"
    using notyet by simp
  show ?thesis unfolding rrCore_def using len bnd d' m' r' a' n' cnt by blast
qed

lemma rrCore_execute:
  assumes core: "rrCore ps b True rem rq (Some r) c"
  shows "rrCore ps b False (rem[r := rem ! r - 1]) rq (Some r) c"
proof -
  let ?rem = "rem[r := rem ! r - 1]"
  from core have len: "length rem = length ps"
    and bnd: "\<forall>i<length ps. 0 \<le> rem ! i \<and> rem ! i \<le> burstTime (ps ! i)"
    and dst: "distinct rq"
    and mem: "\<forall>i\<in>set rq. i < length ps \<and> 0 < rem ! i \<and> arrivalTime (ps ! i) < b"
    and run: "r < length ps" "r \<notin> set rq" "arrivalTime (ps ! r) < b" "0 < rem ! r"
    and arrived: "\<forall>i<length ps. arrivalTime (ps ! i) < b \<longrightarrow>
        (rem ! i = 0 \<and> Some r \<noteq> Some i) \<or> i \<in> set rq \<or> Some r = Some i"
    and notyet: "\<forall>i<length ps. b \<le> arrivalTime (ps ! i) \<longrightarrow> rem ! i = burstTime (ps ! i)"
    unfolding rrCore_def by simp_all
  from core have cnt: "c + (if rem ! r = 0 then 1 else 0) = count_list rem 0"
    unfolding rrCore_def by auto
  have nth: "\<And>i. i \<noteq> r \<Longrightarrow> ?rem ! i = rem ! i" by simp
  have nthr: "?rem ! r = rem ! r - 1" using run(1) len by simp
  have l': "length ?rem = length ps" using len by simp
  have b': "\<forall>i<length ps. 0 \<le> ?rem ! i \<and> ?rem ! i \<le> burstTime (ps ! i)"
  proof (intro allI impI)
    fix i assume i: "i < length ps"
    show "0 \<le> ?rem ! i \<and> ?rem ! i \<le> burstTime (ps ! i)"
    proof (cases "i = r")
      case True
      with bnd i run(4) nthr show ?thesis by force
    next
      case False
      with bnd i nth show ?thesis by simp
    qed
  qed
  have m': "\<forall>i\<in>set rq. i < length ps \<and> 0 < ?rem ! i \<and> arrivalTime (ps ! i) < b"
  proof
    fix i assume i: "i \<in> set rq"
    with run(2) have "i \<noteq> r" by auto
    with mem i nth show "i < length ps \<and> 0 < ?rem ! i \<and> arrivalTime (ps ! i) < b" by simp
  qed
  have r': "\<forall>r'. Some r = Some r' \<longrightarrow>
        r' < length ps \<and> r' \<notin> set rq \<and> arrivalTime (ps ! r') < b \<and> (False \<longrightarrow> 0 < ?rem ! r')"
    using run by simp
  have a': "\<forall>i<length ps. arrivalTime (ps ! i) < b \<longrightarrow>
        (?rem ! i = 0 \<and> Some r \<noteq> Some i) \<or> i \<in> set rq \<or> Some r = Some i"
  proof (intro allI impI)
    fix i assume i: "i < length ps" "arrivalTime (ps ! i) < b"
    show "(?rem ! i = 0 \<and> Some r \<noteq> Some i) \<or> i \<in> set rq \<or> Some r = Some i"
    proof (cases "i = r")
      case True
      then show ?thesis by simp
    next
      case False
      with arrived i nth show ?thesis by auto
    qed
  qed
  have n': "\<forall>i<length ps. b \<le> arrivalTime (ps ! i) \<longrightarrow> ?rem ! i = burstTime (ps ! i)"
  proof (intro allI impI)
    fix i assume i: "i < length ps" "b \<le> arrivalTime (ps ! i)"
    with run(3) have "i \<noteq> r" by auto
    with notyet i nth show "?rem ! i = burstTime (ps ! i)" by simp
  qed
  have nn: "\<forall>x\<in>set rem. 0 \<le> x"
  proof
    fix x assume "x \<in> set rem"
    then obtain i where "i < length rem" "rem ! i = x" by (auto simp: in_set_conv_nth)
    with bnd len show "0 \<le> x" by auto
  qed
  have "count_list ?rem 0 = count_list rem 0 + (if rem ! r - 1 = 0 then 1 else 0)"
    by (rule tick_remaining(2)) (use run len nn in auto)
  then have c': "c + (if ?rem ! r = 0 then 1 else 0) = count_list ?rem 0"
    using cnt run(4) nthr by simp
  show ?thesis unfolding rrCore_def option.case using l' b' dst m' r' a' n' c' by blast
qed

lemma rrCore_idle_late:
  assumes core: "rrCore ps b pos rem [] None c" and cond: "c < length ps"
  shows "\<exists>i<length ps. b \<le> arrivalTime (ps ! i)"
proof -
  from core have len: "length rem = length ps"
    and bnd: "\<forall>i<length ps. 0 \<le> rem ! i \<and> rem ! i \<le> burstTime (ps ! i)"
    and arrived: "\<forall>i<length ps. arrivalTime (ps ! i) < b \<longrightarrow> rem ! i = 0"
    and cnt: "c = count_list rem 0"
    unfolding rrCore_def by simp_all
  from cond cnt len have "count_list rem 0 < length rem" by simp
  from count_list_less_ex[OF this] obtain i where i: "i < length ps" "rem ! i \<noteq> 0"
    using len by auto
  with arrived have "b \<le> arrivalTime (ps ! i)" by force
  with i show ?thesis by blast
qed

section \<open>simulateRoundRobin returns\<close>


lemma rrInv_running:
  "rrInv ps b pos s \<Longrightarrow> runningProcess s = Some r \<Longrightarrow> r < length (localProcesses s)"
  unfolding rrInv_def rrCore_def by (metis length_map)

lemma arrivals_new:
  assumes "map arrivalTime lp = map arrivalTime ps"
  shows "set (sortBy cmp (indicesWhere (\<lambda>p. arrivalTime p = t) lp)) =
           {i. i < length ps \<and> arrivalTime (ps ! i) = t}"
    and "distinct (sortBy cmp (indicesWhere (\<lambda>p. arrivalTime p = t) lp))"
proof -
  have len: "length lp = length ps" using assms by (metis length_map)
  have nth: "\<And>i. i < length ps \<Longrightarrow> arrivalTime (lp ! i) = arrivalTime (ps ! i)"
    using assms len by (metis nth_map)
  show "set (sortBy cmp (indicesWhere (\<lambda>p. arrivalTime p = t) lp)) =
           {i. i < length ps \<and> arrivalTime (ps ! i) = t}"
    using len nth by (auto simp: set_sortBy set_indicesWhere)
  show "distinct (sortBy cmp (indicesWhere (\<lambda>p. arrivalTime p = t) lp))"
    by (simp add: distinct_sortBy indicesWhere_def)
qed

lemma srr_retire_inv:
  assumes "rrInv ps b False s"
  shows "rrInv ps b True (srr_retire q s)"
proof (cases "runningProcess s")
  case None
  then have "srr_retire q s = s" by (simp add: srr_retire_def)
  then show ?thesis using assms None rrCore_retire_none unfolding rrInv_def by auto
next
  case (Some r)
  from rrInv_running[OF assms Some] have r: "r < length (localProcesses s)" .
  then have nth: "map remainingTime (localProcesses s) ! r = remainingTime (localProcesses s ! r)"
    by simp
  from assms Some have core: "rrCore ps b False (map remainingTime (localProcesses s))
      (readyQueue s) (Some r) (completed s)" by (simp add: rrInv_def)
  from assms have st: "map arrivalTime (localProcesses s) = map arrivalTime ps"
    "map burstTime (localProcesses s) = map burstTime ps" by (simp_all add: rrInv_def)
  show ?thesis
  proof (cases "remainingTime (localProcesses s ! r) = 0")
    case True
    have "rrCore ps b True (map remainingTime (localProcesses s)) (readyQueue s) None (completed s + 1)"
      by (rule rrCore_retire_done[OF core]) (simp add: nth True)
    then show ?thesis using Some True st
      by (simp add: rrInv_def srr_retire_def map_update_same)
  next
    case False
    show ?thesis
    proof (cases "quantumCounter s = q")
      case True
      have "rrCore ps b True (map remainingTime (localProcesses s)) (readyQueue s @ [r]) None (completed s)"
        by (rule rrCore_retire_expired[OF core]) (simp add: nth False)
      then show ?thesis using Some False True st by (simp add: rrInv_def srr_retire_def)
    next
      case qf: False
      have "rrCore ps b True (map remainingTime (localProcesses s)) (readyQueue s) (Some r) (completed s)"
        by (rule rrCore_retire_keep[OF core]) (simp add: nth False)
      then show ?thesis using Some False qf st by (simp add: rrInv_def srr_retire_def)
    qed
  qed
qed

lemma srr_retire_fields:
  "currentTime (srr_retire q s) = currentTime s"
  "map remainingTime (localProcesses (srr_retire q s)) = map remainingTime (localProcesses s)"
  "completed s \<le> completed (srr_retire q s)"
  by (simp_all add: srr_retire_def map_update_same split: option.splits)

lemma srr_arrivals_inv:
  assumes "rrInv ps (currentTime s) True s" and "\<forall>p\<in>set ps. 0 < burstTime p"
  shows "rrInv ps (currentTime s + 1) True (srr_arrivals s)"
proof -
  let ?new = "sortBy (cmpIdAt (localProcesses s))
                (indicesWhere (\<lambda>p. arrivalTime p = currentTime s) (localProcesses s))"
  from assms(1) have st: "map arrivalTime (localProcesses s) = map arrivalTime ps"
    "map burstTime (localProcesses s) = map burstTime ps"
    and core: "rrCore ps (currentTime s) True (map remainingTime (localProcesses s)) (readyQueue s)
       (runningProcess s) (completed s)" by (simp_all add: rrInv_def)
  have eq: "localProcesses (srr_arrivals s) = localProcesses s"
    "readyQueue (srr_arrivals s) = readyQueue s @ ?new"
    "runningProcess (srr_arrivals s) = runningProcess s"
    "completed (srr_arrivals s) = completed s"
    by (simp_all add: srr_arrivals_def Let_def sortBy_def)
  have "rrCore ps (currentTime s + 1) True (map remainingTime (localProcesses s)) (readyQueue s @ ?new)
       (runningProcess s) (completed s)"
    by (rule rrCore_arrive[OF core arrivals_new[OF st(1)] assms(2)])
  then show ?thesis using st by (simp add: rrInv_def eq)
qed

lemma srr_arrivals_fields:
  "currentTime (srr_arrivals s) = currentTime s"
  "localProcesses (srr_arrivals s) = localProcesses s"
  "completed (srr_arrivals s) = completed s"
  by (simp_all add: srr_arrivals_def Let_def)

lemma srr_dispatch_inv:
  assumes "rrInv ps b True s"
  shows "rrInv ps b True (srr_dispatch s)"
proof (cases "runningProcess s = None \<and> length (readyQueue s) > 0")
  case True
  then obtain h rest where q: "readyQueue s = h # rest" by (cases "readyQueue s") auto
  from assms True q have "rrCore ps b True (map remainingTime (localProcesses s)) (h # rest) None
      (completed s)" by (simp add: rrInv_def)
  from rrCore_dispatch[OF this] show ?thesis using assms True q
    by (simp add: rrInv_def srr_dispatch_def)
next
  case False
  then have "srr_dispatch s = s" by (auto simp: srr_dispatch_def)
  with assms show ?thesis by simp
qed

lemma srr_dispatch_fields:
  "currentTime (srr_dispatch s) = currentTime s"
  "localProcesses (srr_dispatch s) = localProcesses s"
  "completed (srr_dispatch s) = completed s"
  "runningProcess (srr_dispatch s) = None \<Longrightarrow> readyQueue (srr_dispatch s) = []"
  by (auto simp: srr_dispatch_def split: if_splits)

lemma srr_execute_inv:
  assumes "rrInv ps b True s"
  shows "rrInv ps b False (srr_execute s)"
proof (cases "runningProcess s")
  case None
  then have eq: "localProcesses (srr_execute s) = localProcesses s"
    "readyQueue (srr_execute s) = readyQueue s"
    "runningProcess (srr_execute s) = None"
    "completed (srr_execute s) = completed s"
    by (simp_all add: srr_execute_def)
  from assms None have "rrCore ps b True (map remainingTime (localProcesses s)) (readyQueue s) None
      (completed s)" by (simp add: rrInv_def)
  from rrCore_idle[OF this] show ?thesis using assms by (simp add: rrInv_def eq)
next
  case (Some r)
  from rrInv_running[OF assms Some] have r: "r < length (localProcesses s)" .
  from assms Some have core: "rrCore ps b True (map remainingTime (localProcesses s))
      (readyQueue s) (Some r) (completed s)" by (simp add: rrInv_def)
  have "map remainingTime (localProcesses (srr_execute s)) =
      (map remainingTime (localProcesses s))[r := map remainingTime (localProcesses s) ! r - 1]"
    using Some r by (simp add: srr_execute_def decRemaining_remaining)
  moreover have "readyQueue (srr_execute s) = readyQueue s"
    "runningProcess (srr_execute s) = Some r"
    "completed (srr_execute s) = completed s"
    "map arrivalTime (localProcesses (srr_execute s)) = map arrivalTime (localProcesses s)"
    "map burstTime (localProcesses (srr_execute s)) = map burstTime (localProcesses s)"
    using Some by (simp_all add: srr_execute_def)
  ultimately show ?thesis using rrCore_execute[OF core] assms by (simp add: rrInv_def)
qed

lemma srr_execute_fields:
  "currentTime (srr_execute s) = currentTime s"
  "completed (srr_execute s) = completed s"
  by (simp_all add: srr_execute_def split: option.splits)

lemma srr_execute_measure:
  assumes "rrInv ps b True s"
  shows "(runningProcess s \<noteq> None \<and> remainingSum (srr_execute s) < remainingSum s) \<or>
         (runningProcess s = None \<and> remainingSum (srr_execute s) = remainingSum s)"
proof (cases "runningProcess s")
  case None
  then show ?thesis by (simp add: srr_execute_def remainingSum_def)
next
  case (Some r)
  let ?rem = "map remainingTime (localProcesses s)"
  from rrInv_running[OF assms Some] have r: "r < length ?rem" by simp
  from assms Some have core: "rrCore ps b True ?rem (readyQueue s) (Some r) (completed s)"
    by (simp add: rrInv_def)
  then have pos: "0 < ?rem ! r" and len: "length ?rem = length ps"
    and bnd: "\<forall>i<length ps. 0 \<le> ?rem ! i" unfolding rrCore_def by blast+
  have nn: "\<forall>x\<in>set ?rem. 0 \<le> x"
  proof
    fix x assume "x \<in> set ?rem"
    then obtain i where "i < length ?rem" "?rem ! i = x" by (auto simp: in_set_conv_nth)
    with bnd len show "0 \<le> x" by auto
  qed
  have "map remainingTime (localProcesses (srr_execute s)) = ?rem[r := ?rem ! r - 1]"
    using Some r by (simp add: srr_execute_def decRemaining_remaining)
  then show ?thesis using tick_remaining(3)[OF r pos nn] Some by (simp add: remainingSum_def)
qed

lemma srr_yield_inv:
  "rrInv ps b pos (srr_yield s) = rrInv ps b pos s"
  by (simp add: rrInv_def srr_yield_def)

lemma srr_yield_fields:
  "currentTime (srr_yield s) = currentTime s + 1"
  "completed (srr_yield s) = completed s"
  "localProcesses (srr_yield s) = localProcesses s"
  by (simp_all add: srr_yield_def)

lemma rrInv_message [simp]: "rrInv ps b pos (s\<lparr>message := m\<rparr>) = rrInv ps b pos s"
  by (simp add: rrInv_def)

lemma srr_body_step:
  assumes inv: "rrInv ps (currentTime s) False s" and cond: "completed s < length ps"
    and burst: "\<forall>p\<in>set ps. 0 < burstTime p"
  shows "rrInv ps (currentTime (srr_body q s)) False (srr_body q s) \<and>
         (srr_body q s, s) \<in> inv_image (less_than <*lex*> less_than <*lex*> less_than)
            (\<lambda>s. (length ps - completed s, remainingSum s, nat (maxArrival ps - currentTime s)))"
proof -
  let ?s0 = "s\<lparr>message := []\<rparr>"
  let ?s1 = "srr_retire q ?s0"
  let ?s2 = "srr_arrivals ?s1"
  let ?s3 = "srr_dispatch ?s2"
  let ?s4 = "srr_execute ?s3"
  have body: "srr_body q s = srr_yield ?s4" by (simp add: srr_body_def)
  have t1: "currentTime ?s1 = currentTime s" by (simp add: srr_retire_fields)
  have i1: "rrInv ps (currentTime ?s1) True ?s1" using srr_retire_inv[of ps "currentTime s" ?s0 q] inv t1 by simp
  have i2: "rrInv ps (currentTime s + 1) True ?s2" using srr_arrivals_inv[OF i1 burst] t1 by simp
  have i3: "rrInv ps (currentTime s + 1) True ?s3" using srr_dispatch_inv[OF i2] .
  have i4: "rrInv ps (currentTime s + 1) False ?s4" using srr_execute_inv[OF i3] .
  have t: "currentTime (srr_body q s) = currentTime s + 1"
    by (simp add: body srr_yield_fields srr_execute_fields srr_dispatch_fields srr_arrivals_fields t1)
  have inv': "rrInv ps (currentTime (srr_body q s)) False (srr_body q s)"
    using i4 by (simp add: t) (simp add: body srr_yield_inv)
  have c1: "completed s \<le> completed ?s1" using srr_retire_fields(3)[of ?s0 q] by simp
  have c: "completed (srr_body q s) = completed ?s1"
    by (simp add: body srr_yield_fields srr_execute_fields srr_dispatch_fields srr_arrivals_fields)
  have rs3: "remainingSum ?s3 = remainingSum s"
    by (simp add: remainingSum_def srr_dispatch_fields srr_arrivals_fields srr_retire_fields)
  have rs: "remainingSum (srr_body q s) = remainingSum ?s4"
    by (simp add: body remainingSum_def srr_yield_fields)
  have "length ps - completed (srr_body q s) < length ps - completed s \<or>
        (completed (srr_body q s) = completed s \<and>
          (remainingSum (srr_body q s) < remainingSum s \<or>
           (remainingSum (srr_body q s) = remainingSum s \<and> currentTime s < maxArrival ps)))"
  proof (cases "completed ?s1 = completed s")
    case False
    with c1 c cond show ?thesis by auto
  next
    case True
    show ?thesis
    proof (cases "runningProcess ?s3")
      case (Some r)
      with srr_execute_measure[OF i3] rs rs3 c True show ?thesis by simp
    next
      case None
      with srr_execute_measure[OF i3] rs rs3 have same: "remainingSum (srr_body q s) = remainingSum s"
        by simp
      from None have "readyQueue ?s3 = []" by (rule srr_dispatch_fields(4))
      with i3 None have "rrCore ps (currentTime s + 1) True (map remainingTime (localProcesses ?s3)) []
          None (completed ?s3)" by (simp add: rrInv_def)
      moreover have "completed ?s3 < length ps"
        using True cond by (simp add: srr_dispatch_fields srr_arrivals_fields)
      ultimately obtain i where i: "i < length ps" "currentTime s + 1 \<le> arrivalTime (ps ! i)"
        using rrCore_idle_late by blast
      then have "arrivalTime (ps ! i) \<le> maxArrival ps" by (simp add: maxArrival_ge)
      with i have "currentTime s < maxArrival ps" by simp
      with same c True show ?thesis by simp
    qed
  qed
  then have "(srr_body q s, s) \<in> inv_image (less_than <*lex*> less_than <*lex*> less_than)
            (\<lambda>s. (length ps - completed s, remainingSum s, nat (maxArrival ps - currentTime s)))"
    using t by auto
  with inv' show ?thesis by blast
qed

lemma rrInv_init:
  assumes "\<forall>p\<in>set ps. remainingTime p = burstTime p \<and> 0 < burstTime p \<and> 0 \<le> arrivalTime p"
  shows "rrInv ps 0 False (initLocals ps)"
proof -
  have "count_list (map remainingTime ps) 0 = 0" using assms by (induction ps) auto
  moreover have "\<forall>i<length ps. remainingTime (ps ! i) = burstTime (ps ! i) \<and>
      0 < burstTime (ps ! i) \<and> 0 \<le> arrivalTime (ps ! i)"
    using assms by simp
  ultimately show ?thesis
    by (auto simp: rrInv_def rrCore_def initLocals_def)
qed

lemma simulateRoundRobin_returns:
  assumes ne: "ps \<noteq> []"
    and ok: "\<forall>p\<in>set ps. remainingTime p = burstTime p \<and> 0 < burstTime p \<and> 0 \<le> arrivalTime p"
  shows "\<exists>evs. simulateRoundRobin ps q = Some evs \<and> evs \<noteq> [] \<and>
      eventMessage (last evs) = ''All processes complete.''"
proof -
  have burst: "\<forall>p\<in>set ps. 0 < burstTime p" using ok by simp
  have "\<exists>t. while_loop (\<lambda>s. completed s < length ps) (srr_body q) (initLocals ps) = Some t"
  proof (rule while_loop_terminates[where I = "\<lambda>s. rrInv ps (currentTime s) False s"])
    show "wf (inv_image (less_than <*lex*> less_than <*lex*> less_than)
            (\<lambda>s::locals. (length ps - completed s, remainingSum s, nat (maxArrival ps - currentTime s))))"
      by (intro wf_inv_image wf_lex_prod wf_less_than)
    show "rrInv ps (currentTime (initLocals ps)) False (initLocals ps)"
      using rrInv_init[OF ok] by (simp add: initLocals_def)
    fix s :: locals assume a: "rrInv ps (currentTime s) False s" "completed s < length ps"
    show "rrInv ps (currentTime (srr_body q s)) False (srr_body q s) \<and>
         (srr_body q s, s) \<in> inv_image (less_than <*lex*> less_than <*lex*> less_than)
            (\<lambda>s. (length ps - completed s, remainingSum s, nat (maxArrival ps - currentTime s)))"
      by (rule srr_body_step[OF a burst])
  qed
  then show ?thesis using ne finalEvent_last by (auto simp: simulateRoundRobin_def)
qed

section \<open>The generators end with the final event\<close>

lemma validInput_all:
  assumes "validInput ps" and "p \<in> set ps"
  shows "0 \<le> arrivalTime p" "0 < burstTime p" "remainingTime p = burstTime p" "state p = NotArrived"
  using assms by (auto simp: validInput_def validProcess_def list_all_iff)

lemma endsWithFinalEventI:
  "\<exists>evs. r = Some evs \<and> evs \<noteq> [] \<and> eventMessage (last evs) = ''All processes complete.'' \<Longrightarrow>
   endsWithFinalEvent r"
  by (auto simp: endsWithFinalEvent_def)

text \<open>
  C10 (amended): for every non-empty valid input and every policy (Round Robin with any
  quantum), the stepwise generator yields a finite sequence of tick events, and the last
  event of the sequence has the message "All processes complete.".
\<close>

theorem C10_generators_end_with_final_event:
  assumes "validInput ps" and "ps \<noteq> []"
  shows "endsWithFinalEvent (simulateFCFS ps) \<and>
         endsWithFinalEvent (simulateSJF ps) \<and>
         endsWithFinalEvent (simulateSRTF ps) \<and>
         endsWithFinalEvent (simulateRoundRobin ps timeQuantum) \<and>
         endsWithFinalEvent (simulatePriorityNonPreemptive ps) \<and>
         endsWithFinalEvent (simulatePriorityPreemptive ps)"
proof -
  have fresh: "\<forall>p\<in>set ps. state p \<noteq> Completed" using validInput_all(4)[OF assms(1)] by auto
  have pos: "\<forall>p\<in>set ps. 0 < remainingTime p" using validInput_all(2,3)[OF assms(1)] by auto
  have ok: "\<forall>p\<in>set ps. remainingTime p = burstTime p \<and> 0 < burstTime p \<and> 0 \<le> arrivalTime p"
    using validInput_all(1,2,3)[OF assms(1)] by auto
  have "endsWithFinalEvent (simulateFCFS ps)"
    by (rule endsWithFinalEventI) (rule simulateFCFS_returns[OF assms(2)])
  moreover have "endsWithFinalEvent (simulateSJF ps)"
    unfolding simulateSJF_def
    by (rule endsWithFinalEventI)
      (rule snp_run_returns[where pick = sim_sjf_shorter, OF sim_sjf_shorter_choice assms(2) fresh])
  moreover have "endsWithFinalEvent (simulateSRTF ps)"
    unfolding simulateSRTF_def
    by (rule endsWithFinalEventI)
      (rule sp_run_returns[where pick = sim_srtf_shorter, OF sim_srtf_shorter_choice assms(2) pos])
  moreover have "endsWithFinalEvent (simulateRoundRobin ps timeQuantum)"
    by (rule endsWithFinalEventI) (rule simulateRoundRobin_returns[OF assms(2) ok])
  moreover have "endsWithFinalEvent (simulatePriorityNonPreemptive ps)"
    unfolding simulatePriorityNonPreemptive_def
    by (rule endsWithFinalEventI)
      (rule snp_run_returns[where pick = sim_prio_higher, OF sim_prio_higher_choice assms(2) fresh])
  moreover have "endsWithFinalEvent (simulatePriorityPreemptive ps)"
    unfolding simulatePriorityPreemptive_def
    by (rule endsWithFinalEventI)
      (rule sp_run_returns[where pick = sim_prio_higher, OF sim_prio_higher_choice assms(2) pos])
  ultimately show ?thesis by blast
qed

text \<open>
  The amended C10 at the input P1 (arrival 0, burst 2), P2 (arrival 1, burst 1), with
  quantum 2.
\<close>

theorem C10_generators_witness:
  "validInput [newProcess 1 ''P1'' ''c1'' 0 2 None, newProcess 2 ''P2'' ''c2'' 1 1 None] \<and>
   [newProcess 1 ''P1'' ''c1'' 0 2 None, newProcess 2 ''P2'' ''c2'' 1 1 None] \<noteq> [] \<and>
   endsWithFinalEvent
     (simulateRoundRobin [newProcess 1 ''P1'' ''c1'' 0 2 None, newProcess 2 ''P2'' ''c2'' 1 1 None] 2) \<and>
   endsWithFinalEvent
     (simulateSJF [newProcess 1 ''P1'' ''c1'' 0 2 None, newProcess 2 ''P2'' ''c2'' 1 1 None])"
proof -
  let ?ps = "[newProcess 1 ''P1'' ''c1'' 0 2 None, newProcess 2 ''P2'' ''c2'' 1 1 None]"
  have v: "validInput ?ps" by (simp add: validInput_def validProcess_def newProcess_def)
  have ne: "?ps \<noteq> []" by simp
  from C10_generators_end_with_final_event[OF v ne, of 2] v ne show ?thesis by blast
qed

text \<open>
  C10 (as stated) fails for the empty process list: every generator returns at once and
  yields no event, so there is no final event.
\<close>

theorem C10_empty_input_yields_nothing:
  "simulateFCFS [] = Some [] \<and> simulateSJF [] = Some [] \<and> simulateSRTF [] = Some [] \<and>
   simulateRoundRobin [] 2 = Some [] \<and> simulatePriorityNonPreemptive [] = Some [] \<and>
   simulatePriorityPreemptive [] = Some [] \<and> \<not> endsWithFinalEvent (simulateRoundRobin [] 2)"
  by (simp add: simulateFCFS_def simulateSJF_def simulateSRTF_def simulateRoundRobin_def
      simulatePriorityNonPreemptive_def simulatePriorityPreemptive_def snp_run_def sp_run_def
      endsWithFinalEvent_def)

section \<open>Timelines\<close>

lemma ticksOf_append: "ticksOf n (xs @ ys) = ticksOf n xs + ticksOf n ys"
  by (simp add: ticksOf_def)

lemma ticksOf_replicate_None [simp]: "ticksOf n (replicate k None) = 0"
  by (simp add: ticksOf_def)


lemma ticksOf_pushTimes_None [simp]: "ticksOf n (pushTimes k None tline) = ticksOf n tline"
  by (simp add: pushTimes_def ticksOf_append)






lemma sameStatic_refl [simp]: "sameStatic ps ps"
  by (simp add: sameStatic_def)



section \<open>runFCFS\<close>






section \<open>runSJF and runPriorityNonPreemptive\<close>












section \<open>runSRTF and runPriorityPreemptive\<close>









section \<open>runRoundRobin\<close>













section \<open>Metrics and charts of the batch engines\<close>



lemma chartDisjoint_mkResult: "chartDisjoint (mkResult n s tt)"
  using buildGanttChart_bounds[of _ "timeline s"]
  by (auto simp: chartDisjoint_def mkResult_def buildGanttChart_sorted list_all_iff)

lemma chartDisjoint_empty: "chartDisjoint (createEmptyResult n)"
  by (simp add: chartDisjoint_def createEmptyResult_def)






lemma runRoundRobin_disjoint: "runRoundRobin ps q = Some r \<Longrightarrow> chartDisjoint r"
  by (auto simp: runRoundRobin_def chartDisjoint_empty chartDisjoint_mkResult split: if_splits)


section \<open>The safety ceiling of Round Robin, second listing\<close>

lemma rr2_retire_fields [simp]:
  "currentTime (rr2_retire q s) = currentTime s"
  "stopped (rr2_retire q s) = stopped s"
  "console (rr2_retire q s) = console s"
  by (simp_all add: rr2_retire_def split: option.splits)

lemma rr2_arrivals_fields [simp]:
  "currentTime (rr2_arrivals s) = currentTime s"
  "stopped (rr2_arrivals s) = stopped s"
  "console (rr2_arrivals s) = console s"
  by (simp_all add: rr2_arrivals_def)

lemma rr2_body_clock:
  "currentTime (rr2_body q s) = currentTime s + 1"
  "stopped s \<Longrightarrow> stopped (rr2_body q s)"
  "\<not> stopped s \<Longrightarrow> stopped (rr2_body q s) \<longleftrightarrow> currentTime s + 1 > 10000"
  "console (rr2_body q s) =
     (if currentTime s + 1 > 10000
      then console s @ [''Breaking Round Robin loop, possible infinite loop detected.'']
      else console s)"
  by (simp_all add: rr2_body_def rr_advance_def Let_def)






section \<open>Round Robin while nothing has arrived\<close>

lemma rr2_idle_step:
  assumes "\<forall>p\<in>set ps. arrivalTime p \<noteq> currentTime s" "localProcesses s = ps"
     "runningProcess s = None" "readyQueue s = []"
  shows "rr2_body q s = rr_advance 10000 (s\<lparr>timeline := timeline s @ [None]\<rparr>)"
proof -
  have "indicesWhere (\<lambda>p. arrivalTime p = currentTime s \<and> remainingTime p > 0) ps = []"
    using assms(1) by (auto simp: indicesWhere_def filter_empty_conv)
  then show ?thesis using assms(2-)
    by (cases s)
      (simp add: rr2_body_def rr2_retire_def rr2_arrivals_def rr_dispatch_def rr_execute_def sortBy_def)
qed

lemma rr_idle_until:
  assumes "\<forall>p\<in>set ps. int k \<le> arrivalTime p"
  shows "k \<le> 20000 \<Longrightarrow> (rr_body q ^^ k) (initLocals ps) =
     (initLocals ps)\<lparr>currentTime := int k, timeline := replicate k None\<rparr>"
  using assms
proof (induction k)
  case 0
  then show ?case by (simp add: initLocals_def)
next
  case (Suc k)
  let ?s = "(initLocals ps)\<lparr>currentTime := int k, timeline := replicate k None\<rparr>"
  have k: "k < 20000" using Suc.prems by simp
  have st: "(rr_body q ^^ k) (initLocals ps) = ?s" using Suc by force
  have "\<forall>p\<in>set ps. arrivalTime p \<noteq> currentTime ?s" using Suc.prems(2) by force
  then have "rr_body q ?s = rr_advance 20000 (?s\<lparr>timeline := timeline ?s @ [None]\<rparr>)"
    by (rule rr_idle_step) (simp_all add: initLocals_def)
  then show ?case using k st
    by (simp add: rr_advance_def initLocals_def replicate_append_same)
qed

lemma rr2_idle_until:
  assumes "\<forall>p\<in>set ps. int k \<le> arrivalTime p"
  shows "k \<le> 10000 \<Longrightarrow> (rr2_body q ^^ k) (initLocals ps) =
     (initLocals ps)\<lparr>currentTime := int k, timeline := replicate k None\<rparr>"
  using assms
proof (induction k)
  case 0
  then show ?case by (simp add: initLocals_def)
next
  case (Suc k)
  let ?s = "(initLocals ps)\<lparr>currentTime := int k, timeline := replicate k None\<rparr>"
  have k: "k < 10000" using Suc.prems by simp
  have st: "(rr2_body q ^^ k) (initLocals ps) = ?s" using Suc by force
  have "\<forall>p\<in>set ps. arrivalTime p \<noteq> currentTime ?s" using Suc.prems(2) by force
  then have "rr2_body q ?s = rr_advance 10000 (?s\<lparr>timeline := timeline ?s @ [None]\<rparr>)"
    by (rule rr2_idle_step) (simp_all add: initLocals_def)
  then show ?case using k st
    by (simp add: rr_advance_def initLocals_def replicate_append_same)
qed

text \<open>
  A run whose first \<open>k\<close> passes find nothing to do and whose next pass leaves the loop.
\<close>

lemma while_loop_after:
  assumes "\<forall>j\<le>k. b ((c ^^ j) s)" and "\<not> b (c ((c ^^ k) s))"
  shows "while_loop b c s = Some (c ((c ^^ k) s))"
proof -
  have "\<forall>j<Suc k. b ((c ^^ j) s)" using assms(1) by (simp add: less_Suc_eq_le)
  from while_loop_funpow[OF this]
  have "while_loop b c s = while_loop b c ((c ^^ Suc k) s)" .
  also have "\<dots> = Some ((c ^^ Suc k) s)"
    using assms(2) by (subst while_loop.simps) simp
  finally show ?thesis by simp
qed

lemma rr_late_run:
  assumes "ps \<noteq> []" and "\<forall>p\<in>set ps. 20000 \<le> arrivalTime p"
  shows "rr_run ps q =
     Some (rr_body q ((initLocals ps)\<lparr>currentTime := 20000, timeline := replicate 20000 None\<rparr>))"
proof -
  have run: "(rr_body q ^^ j) (initLocals ps) =
      (initLocals ps)\<lparr>currentTime := int j, timeline := replicate j None\<rparr>" if "j \<le> 20000" for j
    by (rule rr_idle_until[OF _ that]) (use assms(2) that in force)
  have 1: "\<forall>j\<le>20000. rr_cond (length ps) ((rr_body q ^^ j) (initLocals ps))"
  proof (intro allI impI)
    fix j :: nat assume "j \<le> 20000"
    from run[OF this] show "rr_cond (length ps) ((rr_body q ^^ j) (initLocals ps))"
      using assms(1) by (simp add: rr_cond_def initLocals_def)
  qed
  have last: "(rr_body q ^^ 20000) (initLocals ps) =
      (initLocals ps)\<lparr>currentTime := 20000, timeline := replicate 20000 None\<rparr>"
    using run[of 20000] by simp
  have 2: "\<not> rr_cond (length ps) (rr_body q ((rr_body q ^^ 20000) (initLocals ps)))"
    unfolding last by (simp add: rr_cond_def rr_body_clock initLocals_def)
  from while_loop_after[OF 1 2] show ?thesis unfolding last by (simp add: rr_run_def)
qed

lemma rr2_late_run:
  assumes "ps \<noteq> []" and "\<forall>p\<in>set ps. 10000 \<le> arrivalTime p"
  shows "rr2_run ps q =
     Some (rr2_body q ((initLocals ps)\<lparr>currentTime := 10000, timeline := replicate 10000 None\<rparr>))"
proof -
  have run: "(rr2_body q ^^ j) (initLocals ps) =
      (initLocals ps)\<lparr>currentTime := int j, timeline := replicate j None\<rparr>" if "j \<le> 10000" for j
    by (rule rr2_idle_until[OF _ that]) (use assms(2) that in force)
  have 1: "\<forall>j\<le>10000. rr_cond (length ps) ((rr2_body q ^^ j) (initLocals ps))"
  proof (intro allI impI)
    fix j :: nat assume "j \<le> 10000"
    from run[OF this] show "rr_cond (length ps) ((rr2_body q ^^ j) (initLocals ps))"
      using assms(1) by (simp add: rr_cond_def initLocals_def)
  qed
  have last: "(rr2_body q ^^ 10000) (initLocals ps) =
      (initLocals ps)\<lparr>currentTime := 10000, timeline := replicate 10000 None\<rparr>"
    using run[of 10000] by simp
  have 2: "\<not> rr_cond (length ps) (rr2_body q ((rr2_body q ^^ 10000) (initLocals ps)))"
    unfolding last by (simp add: rr_cond_def rr2_body_clock initLocals_def)
  from while_loop_after[OF 1 2] show ?thesis unfolding last by (simp add: rr2_run_def)
qed

text \<open>The chart of a timeline that is idle until one process runs for a tick.\<close>

lemma buildGanttChart_loop_idle:
  "buildGanttChart_loop (replicate k None @ rest) i chart None =
   buildGanttChart_loop rest (i + int k) chart None"
  by (induction k arbitrary: i) (simp_all add: algebra_simps)

lemma buildGanttChart_idle_then_tick:
  "buildGanttChart (replicate k None @ [Some (n, c)]) =
     [\<lparr> processName = n, start = int k, endT = int k + 1, colorG = c \<rparr>]"
  by (simp add: buildGanttChart_def buildGanttChart_loop_idle)


text \<open>The process P1 that arrives at \<open>t\<close> with one unit of burst, alone, with quantum 2.\<close>

lemma rr_run_single_at_ceiling:
  "rr_run [newProcess 1 ''P1'' ''c1'' 20000 1 None] 2 =
     Some ((initLocals [(newProcess 1 ''P1'' ''c1'' 20000 1 None)\<lparr>remainingTime := 0\<rparr>])
       \<lparr>currentTime := 20001,
        timeline := replicate 20000 None @ [Some (''P1'', ''c1'')],
        runningProcess := Some 0, quantumCounter := 1, stopped := True,
        console := [''Breaking Round Robin loop, possible infinite loop detected.'']\<rparr>)"
proof -
  let ?ps = "[newProcess 1 ''P1'' ''c1'' 20000 1 None]"
  have "rr_run ?ps 2 =
     Some (rr_body 2 ((initLocals ?ps)\<lparr>currentTime := 20000, timeline := replicate 20000 None\<rparr>))"
    by (rule rr_late_run) (simp_all add: newProcess_def)
  then show ?thesis
    by (simp add: rr_body_def rr_retire_def rr_arrivals_def rr_dispatch_def rr_execute_def
        rr_advance_def indicesWhere_def sortBy_def initLocals_def newProcess_def info_def Let_def)
qed

lemma rr2_run_single_at_ceiling:
  "rr2_run [newProcess 1 ''P1'' ''c1'' 10000 1 None] 2 =
     Some ((initLocals [(newProcess 1 ''P1'' ''c1'' 10000 1 None)\<lparr>remainingTime := 0\<rparr>])
       \<lparr>currentTime := 10001,
        timeline := replicate 10000 None @ [Some (''P1'', ''c1'')],
        runningProcess := Some 0, quantumCounter := 1, stopped := True,
        console := [''Breaking Round Robin loop, possible infinite loop detected.'']\<rparr>)"
proof -
  let ?ps = "[newProcess 1 ''P1'' ''c1'' 10000 1 None]"
  have "rr2_run ?ps 2 =
     Some (rr2_body 2 ((initLocals ?ps)\<lparr>currentTime := 10000, timeline := replicate 10000 None\<rparr>))"
    by (rule rr2_late_run) (simp_all add: newProcess_def)
  then show ?thesis
    by (simp add: rr2_body_def rr2_retire_def rr2_arrivals_def rr_dispatch_def rr_execute_def
        rr_advance_def indicesWhere_def sortBy_def initLocals_def newProcess_def info_def Let_def)
qed


section \<open>A process that finishes on the last tick before the ceiling\<close>

text \<open>
  C3 fails for Round Robin. P1 arrives at 20000 with a burst of one unit. It runs in tick
  20000 (the chart has the entry P1 from 20000 to 20001) and has no time remaining, but the
  engine commits the metrics of a finished process at the start of the next pass, and the
  clock, now 20001, has passed the ceiling: the loop is left and P1 is returned with
  \<open>completionTime\<close>, \<open>turnaroundTime\<close> and \<open>waitingTime\<close> all 0, so that \<open>turnaroundTime\<close> is
  not \<open>completionTime - arrivalTime\<close>. The second listing does the same at its ceiling,
  with P1 arriving at 10000.
\<close>

theorem C3_round_robin_finished_without_metrics:
  "validInput [newProcess 1 ''P1'' ''c1'' 20000 1 None] \<and>
   map_option segments (runRoundRobin [newProcess 1 ''P1'' ''c1'' 20000 1 None] 2)
     = Some [(''P1'', 20000, 20001)] \<and>
   map_option remainingTimes (runRoundRobin [newProcess 1 ''P1'' ''c1'' 20000 1 None] 2)
     = Some [0] \<and>
   map_option batchMetrics (runRoundRobin [newProcess 1 ''P1'' ''c1'' 20000 1 None] 2)
     = Some [(1, 0, 0, 0)] \<and>
   map_option metricsConsistent (runRoundRobin [newProcess 1 ''P1'' ''c1'' 20000 1 None] 2)
     = Some False \<and>
   validInput [newProcess 1 ''P1'' ''c1'' 10000 1 None] \<and>
   map_option segments (runRoundRobin2 [newProcess 1 ''P1'' ''c1'' 10000 1 None] 2)
     = Some [(''P1'', 10000, 10001)] \<and>
   map_option remainingTimes (runRoundRobin2 [newProcess 1 ''P1'' ''c1'' 10000 1 None] 2)
     = Some [0] \<and>
   map_option batchMetrics (runRoundRobin2 [newProcess 1 ''P1'' ''c1'' 10000 1 None] 2)
     = Some [(1, 0, 0, 0)] \<and>
   map_option metricsConsistent (runRoundRobin2 [newProcess 1 ''P1'' ''c1'' 10000 1 None] 2)
     = Some False"
proof -
  have v: "validInput [newProcess 1 ''P1'' ''c1'' 20000 1 None]"
    "validInput [newProcess 1 ''P1'' ''c1'' 10000 1 None]"
    by (simp_all add: validInput_def validProcess_def newProcess_def)
  have r1: "runRoundRobin [newProcess 1 ''P1'' ''c1'' 20000 1 None] 2 =
      Some (mkResult ''Round Robin''
        ((initLocals [(newProcess 1 ''P1'' ''c1'' 20000 1 None)\<lparr>remainingTime := 0\<rparr>])
          \<lparr>currentTime := 20001,
           timeline := replicate 20000 None @ [Some (''P1'', ''c1'')],
           runningProcess := Some 0, quantumCounter := 1, stopped := True,
           console := [''Breaking Round Robin loop, possible infinite loop detected.'']\<rparr>) 20001)"
    unfolding runRoundRobin_def rr_run_single_at_ceiling by (simp add: initLocals_def)
  have r2: "runRoundRobin2 [newProcess 1 ''P1'' ''c1'' 10000 1 None] 2 =
      Some (mkResult ''Round Robin''
        ((initLocals [(newProcess 1 ''P1'' ''c1'' 10000 1 None)\<lparr>remainingTime := 0\<rparr>])
          \<lparr>currentTime := 10001,
           timeline := replicate 10000 None @ [Some (''P1'', ''c1'')],
           runningProcess := Some 0, quantumCounter := 1, stopped := True,
           console := [''Breaking Round Robin loop, possible infinite loop detected.'']\<rparr>) 10000)"
    unfolding runRoundRobin2_def rr2_run_single_at_ceiling by (simp add: initLocals_def)
  have 1: "map_option segments (runRoundRobin [newProcess 1 ''P1'' ''c1'' 20000 1 None] 2)
      = Some [(''P1'', 20000, 20001)]"
    "map_option remainingTimes (runRoundRobin [newProcess 1 ''P1'' ''c1'' 20000 1 None] 2)
      = Some [0]"
    "map_option batchMetrics (runRoundRobin [newProcess 1 ''P1'' ''c1'' 20000 1 None] 2)
      = Some [(1, 0, 0, 0)]"
    "map_option metricsConsistent (runRoundRobin [newProcess 1 ''P1'' ''c1'' 20000 1 None] 2)
      = Some False"
    unfolding r1
    by (simp_all add: mkResult_def segments_def
        remainingTimes_def batchMetrics_def metrics_def metricsConsistent_def metricsOk_def
        buildGanttChart_idle_then_tick initLocals_def newProcess_def)
  have 2: "map_option segments (runRoundRobin2 [newProcess 1 ''P1'' ''c1'' 10000 1 None] 2)
      = Some [(''P1'', 10000, 10001)]"
    "map_option remainingTimes (runRoundRobin2 [newProcess 1 ''P1'' ''c1'' 10000 1 None] 2)
      = Some [0]"
    "map_option batchMetrics (runRoundRobin2 [newProcess 1 ''P1'' ''c1'' 10000 1 None] 2)
      = Some [(1, 0, 0, 0)]"
    "map_option metricsConsistent (runRoundRobin2 [newProcess 1 ''P1'' ''c1'' 10000 1 None] 2)
      = Some False"
    unfolding r2
    by (simp_all add: mkResult_def segments_def
        remainingTimes_def batchMetrics_def metrics_def metricsConsistent_def metricsOk_def
        buildGanttChart_idle_then_tick initLocals_def newProcess_def)
  from v 1 2 show ?thesis by blast
qed

section \<open>The forEach selection of the second listing\<close>

lemma ltInf_irrefl [simp]: "\<not> ltInf a a"
  by (cases a) simp_all

lemma ltInf_trans: "ltInf a b \<Longrightarrow> ltInf b c \<Longrightarrow> ltInf a c"
  by (cases a; cases b; cases c) simp_all

lemma ltInf_total: "\<not> ltInf a b \<Longrightarrow> a \<noteq> b \<Longrightarrow> ltInf b a"
  by (cases a; cases b) simp_all

lemma ltInf_None [simp]: "ltInf a None \<longleftrightarrow> a \<noteq> None"
  by (cases a) simp_all

lemma keyBefore_refl: "keyBefore key lp a a"
  by (simp add: keyBefore_def)

lemma keyBefore_better:
  assumes "keyBefore key lp sel j" and "ltInf (key (lp ! k)) (key (lp ! sel))"
  shows "keyBefore key lp k j"
  using assms unfolding keyBefore_def by (auto intro: ltInf_trans)

lemma keyBefore_earlier:
  assumes "keyBefore key lp sel j" and "key (lp ! k) = key (lp ! sel)"
    and "arrivalTime (lp ! k) < arrivalTime (lp ! sel)"
  shows "keyBefore key lp k j"
  using assms unfolding keyBefore_def by auto

lemma np2_fold:
  "k \<le> length lp \<Longrightarrow>
   (case foldl (np2_visit key cids lp t) (None, None, None) [0..<k] of (found, minKey, minArr) \<Rightarrow>
      (case found of
         None \<Rightarrow> minKey = None \<and> minArr = None \<and>
                 (\<forall>i<k. \<not> (arrivalTime (lp ! i) \<le> t \<and> pid (lp ! i) \<notin> cids))
       | Some sel \<Rightarrow> sel < k \<and> arrivalTime (lp ! sel) \<le> t \<and> pid (lp ! sel) \<notin> cids \<and>
                 minKey = key (lp ! sel) \<and> minArr = Some (arrivalTime (lp ! sel)) \<and>
                 (\<forall>j<k. arrivalTime (lp ! j) \<le> t \<and> pid (lp ! j) \<notin> cids \<longrightarrow>
                    keyBefore key lp sel j)))"
proof (induction k)
  case 0
  show ?case by simp
next
  case (Suc k)
  let ?ready = "\<lambda>i. arrivalTime (lp ! i) \<le> t \<and> pid (lp ! i) \<notin> cids"
  obtain found minKey minArr where acc:
    "foldl (np2_visit key cids lp t) (None, None, None) [0..<k] = (found, minKey, minArr)"
    by (cases "foldl (np2_visit key cids lp t) (None, None, None) [0..<k]") auto
  from Suc acc have IH: "case found of
         None \<Rightarrow> minKey = None \<and> minArr = None \<and> (\<forall>i<k. \<not> ?ready i)
       | Some sel \<Rightarrow> sel < k \<and> ?ready sel \<and>
                 minKey = key (lp ! sel) \<and> minArr = Some (arrivalTime (lp ! sel)) \<and>
                 (\<forall>j<k. ?ready j \<longrightarrow> keyBefore key lp sel j)"
    by (cases found) simp_all
  have step: "foldl (np2_visit key cids lp t) (None, None, None) [0..<Suc k] =
      np2_visit key cids lp t (found, minKey, minArr) k" using acc by simp
  show ?case
  proof (cases "?ready k")
    case False
    then have same: "np2_visit key cids lp t (found, minKey, minArr) k = (found, minKey, minArr)"
      by (auto simp: np2_visit_def Let_def)
    show ?thesis unfolding step same using IH False
      by (cases found) (auto simp: less_Suc_eq)
  next
    case True
    show ?thesis
    proof (cases found)
      case None
      with IH have n: "minKey = None" "minArr = None" "\<forall>i<k. \<not> ?ready i" by simp_all
      have new: "np2_visit key cids lp t (found, minKey, minArr) k =
          (Some k, key (lp ! k), Some (arrivalTime (lp ! k)))"
        using True n None by (cases "key (lp ! k)") (simp_all add: np2_visit_def Let_def)
      show ?thesis unfolding step new using True n
        by (auto simp: less_Suc_eq keyBefore_refl)
    next
      case (Some sel)
      with IH have sel: "sel < k" "?ready sel" "minKey = key (lp ! sel)"
        "minArr = Some (arrivalTime (lp ! sel))"
        and best: "\<forall>j<k. ?ready j \<longrightarrow> keyBefore key lp sel j" by simp_all
      show ?thesis
      proof (cases "ltInf (key (lp ! k)) (key (lp ! sel))")
        case lt: True
        then have new: "np2_visit key cids lp t (found, minKey, minArr) k =
            (Some k, key (lp ! k), Some (arrivalTime (lp ! k)))"
          using True sel by (simp add: np2_visit_def Let_def)
        have "\<forall>j<Suc k. ?ready j \<longrightarrow> keyBefore key lp k j"
          using best lt by (auto simp: less_Suc_eq keyBefore_refl intro: keyBefore_better)
        then show ?thesis unfolding step new using True by simp
      next
        case nlt: False
        show ?thesis
        proof (cases "key (lp ! k) = key (lp ! sel)")
          case eq: True
          show ?thesis
          proof (cases "arrivalTime (lp ! k) < arrivalTime (lp ! sel)")
            case True
            then have new: "np2_visit key cids lp t (found, minKey, minArr) k =
                (Some k, minKey, Some (arrivalTime (lp ! k)))"
              using \<open>?ready k\<close> sel eq by (simp add: np2_visit_def Let_def)
            have "\<forall>j<Suc k. ?ready j \<longrightarrow> keyBefore key lp k j"
              using best eq True by (auto simp: less_Suc_eq keyBefore_refl intro: keyBefore_earlier)
            then show ?thesis unfolding step new using \<open>?ready k\<close> sel eq by simp
          next
            case False
            then have same: "np2_visit key cids lp t (found, minKey, minArr) k =
                (found, minKey, minArr)"
              using \<open>?ready k\<close> sel eq by (simp add: np2_visit_def Let_def)
            have "keyBefore key lp sel k" using eq False sel(1) by (auto simp: keyBefore_def)
            then have "\<forall>j<Suc k. ?ready j \<longrightarrow> keyBefore key lp sel j"
              using best by (auto simp: less_Suc_eq)
            then show ?thesis unfolding step same using Some sel by simp
          qed
        next
          case neq: False
          then have same: "np2_visit key cids lp t (found, minKey, minArr) k =
              (found, minKey, minArr)"
            using \<open>?ready k\<close> sel nlt by (simp add: np2_visit_def Let_def)
          have "ltInf (key (lp ! sel)) (key (lp ! k))" using nlt neq by (rule ltInf_total)
          then have "keyBefore key lp sel k" by (simp add: keyBefore_def)
          then have "\<forall>j<Suc k. ?ready j \<longrightarrow> keyBefore key lp sel j"
            using best by (auto simp: less_Suc_eq)
          then show ?thesis unfolding step same using Some sel by simp
        qed
      qed
    qed
  qed
qed

lemma np2_select_Some:
  assumes "np2_select key s = Some sel"
  shows "sel \<in> set (np_ready s)"
    and "\<forall>j\<in>set (np_ready s). keyBefore key (localProcesses s) sel j"
  using np2_fold[where k = "length (localProcesses s)" and lp = "localProcesses s" and key = key
      and t = "currentTime s" and cids = "completedProcessIds s"] assms
  by (cases "foldl (np2_visit key (completedProcessIds s) (localProcesses s) (currentTime s))
               (None, None, None) [0..<length (localProcesses s)]";
      auto simp: np2_select_def np_ready_def set_indicesWhere)+

lemma np2_select_None:
  assumes "np2_select key s = None"
  shows "np_ready s = []"
proof -
  have "set (np_ready s) = {}"
    using np2_fold[where k = "length (localProcesses s)" and lp = "localProcesses s" and key = key
      and t = "currentTime s" and cids = "completedProcessIds s"] assms
    by (cases "foldl (np2_visit key (completedProcessIds s) (localProcesses s) (currentTime s))
               (None, None, None) [0..<length (localProcesses s)]")
      (auto simp: np2_select_def np_ready_def set_indicesWhere)
  then show ?thesis by simp
qed

section \<open>Selection in SJF, engine by engine\<close>

lemma sjfBefore_least:
  assumes "sel \<in> set rq" and "\<forall>j\<in>set rq. sjfBefore lp sel j"
  shows "sjfLeast lp rq sel \<and> (\<forall>j\<in>set rq. sjfTie lp j sel \<longrightarrow> j \<le> sel)"
  using assms unfolding sjfLeast_def sjfTie_def sjfBefore_def by fastforce

lemma keyBefore_least:
  assumes "sel \<in> set rq" and "\<forall>j\<in>set rq. keyBefore keyBurst lp sel j"
  shows "sjfLeast lp rq sel \<and> (\<forall>j\<in>set rq. sjfTie lp j sel \<longrightarrow> sel \<le> j)"
  using assms unfolding sjfLeast_def sjfTie_def keyBefore_def keyBurst_def by fastforce

lemma reduce_sjf_least:
  assumes "indicesWhere P lp \<noteq> []"
  shows "\<exists>sel. reduce (sjf_shorter lp) (indicesWhere P lp) = Some sel \<and>
           sjfLeast lp (indicesWhere P lp) sel \<and>
           (\<forall>j\<in>set (indicesWhere P lp). sjfTie lp j sel \<longrightarrow> j \<le> sel)"
proof -
  obtain sel where sel: "reduce (sjf_shorter lp) (indicesWhere P lp) = Some sel"
    using reduce_Some[OF assms] by blast
  from reduce_sjf_shorter[OF sel] have "sel \<in> set (indicesWhere P lp)"
    "\<forall>j\<in>set (indicesWhere P lp). sjfBefore lp sel j"
    by (simp_all add: set_indicesWhere)
  from sjfBefore_least[OF this] sel show ?thesis by blast
qed

lemma runSJF_selects:
  assumes "np_ready s \<noteq> []"
  shows "\<exists>sel. np_body sjf_shorter s = np_execute sel s \<and>
           sjfLeast (localProcesses s) (np_ready s) sel \<and>
           (\<forall>j\<in>set (np_ready s). sjfTie (localProcesses s) j sel \<longrightarrow> j \<le> sel)"
proof -
  from reduce_sjf_least[OF assms[unfolded np_ready_def]] obtain sel where
    sel: "reduce (sjf_shorter (localProcesses s)) (np_ready s) = Some sel"
    and least: "sjfLeast (localProcesses s) (np_ready s) sel"
      "\<forall>j\<in>set (np_ready s). sjfTie (localProcesses s) j sel \<longrightarrow> j \<le> sel"
    unfolding np_ready_def by blast
  have "np_body sjf_shorter s = np_execute sel s"
    using sel assms by (simp add: np_body_def Let_def)
  with least show ?thesis by blast
qed

lemma runSJF2_selects:
  assumes "np_ready s \<noteq> []"
  shows "\<exists>sel. np2_body keyBurst np_execute s = np_execute sel s \<and>
           sjfLeast (localProcesses s) (np_ready s) sel \<and>
           (\<forall>j\<in>set (np_ready s). sjfTie (localProcesses s) j sel \<longrightarrow> sel \<le> j)"
proof (cases "np2_select keyBurst s")
  case None
  from np2_select_None[OF this] assms show ?thesis by simp
next
  case (Some sel)
  have "np2_body keyBurst np_execute s = np_execute sel s" using Some by (simp add: np2_body_def)
  with keyBefore_least[OF np2_select_Some[OF Some]] show ?thesis by blast
qed

lemma simulateSJF_selects:
  assumes "snp_ready s \<noteq> []"
  shows "\<exists>sel. snp_body sim_sjf_shorter why s = snp_execute why sel (s\<lparr>message := arrivalNote s\<rparr>) \<and>
           sjfLeast (localProcesses s) (snp_ready s) sel \<and>
           (\<forall>j\<in>set (snp_ready s). sjfTie (localProcesses s) j sel \<longrightarrow> j \<le> sel)"
proof -
  from reduce_sjf_least[OF assms[unfolded snp_ready_def]] obtain sel where
    sel: "reduce (sjf_shorter (localProcesses s)) (snp_ready s) = Some sel"
    and least: "sjfLeast (localProcesses s) (snp_ready s) sel"
      "\<forall>j\<in>set (snp_ready s). sjfTie (localProcesses s) j sel \<longrightarrow> j \<le> sel"
    unfolding snp_ready_def by blast
  have "snp_body sim_sjf_shorter why s = snp_execute why sel (s\<lparr>message := arrivalNote s\<rparr>)"
    using sel by (simp add: snp_body_def Let_def sim_sjf_shorter_eq snp_ready_def)
  with least show ?thesis by blast
qed

lemma simulateSJF2_selects:
  assumes "ssjf2_ready s \<noteq> []"
  shows "\<exists>sel. ssjf2_body s = ssjf2_execute sel (s\<lparr>message := arrivalNote s\<rparr>) \<and>
           sjfLeast (localProcesses s) (ssjf2_ready s) sel \<and>
           (\<forall>j\<in>set (ssjf2_ready s). sjfTie (localProcesses s) j sel \<longrightarrow> j \<le> sel)"
proof -
  from reduce_sjf_least[OF assms[unfolded ssjf2_ready_def]] obtain sel where
    sel: "reduce (sjf_shorter (localProcesses s)) (ssjf2_ready s) = Some sel"
    and least: "sjfLeast (localProcesses s) (ssjf2_ready s) sel"
      "\<forall>j\<in>set (ssjf2_ready s). sjfTie (localProcesses s) j sel \<longrightarrow> j \<le> sel"
    unfolding ssjf2_ready_def by blast
  have "ssjf2_body s = ssjf2_execute sel (s\<lparr>message := arrivalNote s\<rparr>)"
    using sel by (simp add: ssjf2_body_def Let_def sim_sjf_shorter_eq ssjf2_ready_def)
  with least show ?thesis by blast
qed

text \<open>
  C7 (amended). In SJF selection, batch and stepwise, in both listings: whenever the ready
  set is not empty, the pass of the loop runs a process of the ready set that has the least
  burst time and, among those, the least arrival time. No id is compared. Among the
  processes that tie on both, the \<open>reduce\<close> of \<open>runSJF\<close> (lines 108-128) and of
  \<open>simulateSJF\<close> (lines 520-525 and 1323-1328) takes the one that stands last in the process
  list, and the \<open>forEach\<close> of \<open>runSJF\<close> (lines 904-929) the one that stands first: on such a
  tie the choice depends on the order of the input list. The loop bodies are
  \<open>np_body sjf_shorter\<close> for \<open>runSJF\<close> of the first listing, \<open>np2_body keyBurst np_execute\<close>
  for \<open>runSJF\<close> of the second, \<open>snp_body sim_sjf_shorter\<close> for \<open>simulateSJF\<close> of the first and
  \<open>ssjf2_body\<close> for \<open>simulateSJF\<close> of the second.
\<close>

theorem C7_sjf_selection:
  "(np_ready s \<noteq> [] \<longrightarrow>
      (\<exists>sel. np_body sjf_shorter s = np_execute sel s \<and>
         sjfLeast (localProcesses s) (np_ready s) sel \<and>
         (\<forall>j\<in>set (np_ready s). sjfTie (localProcesses s) j sel \<longrightarrow> j \<le> sel)) \<and>
      (\<exists>sel. np2_body keyBurst np_execute s = np_execute sel s \<and>
         sjfLeast (localProcesses s) (np_ready s) sel \<and>
         (\<forall>j\<in>set (np_ready s). sjfTie (localProcesses s) j sel \<longrightarrow> sel \<le> j))) \<and>
   (snp_ready s \<noteq> [] \<longrightarrow>
      (\<exists>sel. snp_body sim_sjf_shorter '' (shortest job).'' s =
              snp_execute '' (shortest job).'' sel (s\<lparr>message := arrivalNote s\<rparr>) \<and>
         sjfLeast (localProcesses s) (snp_ready s) sel \<and>
         (\<forall>j\<in>set (snp_ready s). sjfTie (localProcesses s) j sel \<longrightarrow> j \<le> sel))) \<and>
   (ssjf2_ready s \<noteq> [] \<longrightarrow>
      (\<exists>sel. ssjf2_body s = ssjf2_execute sel (s\<lparr>message := arrivalNote s\<rparr>) \<and>
         sjfLeast (localProcesses s) (ssjf2_ready s) sel \<and>
         (\<forall>j\<in>set (ssjf2_ready s). sjfTie (localProcesses s) j sel \<longrightarrow> j \<le> sel)))"
  by (intro conjI impI;
      erule runSJF_selects runSJF2_selects simulateSJF_selects simulateSJF2_selects)

text \<open>
  C7 (as stated) fails: P1 (id 1) and P2 (id 2) both arrive at 0 with burst 3. With the
  list P1, P2 \<open>runSJF\<close> of the first listing runs P2 first, and both generators complete P2
  at 3 and P1 at 6; with the list P2, P1 \<open>runSJF\<close> of the second listing runs P2 first. In
  each engine the other order of the list gives the other choice.
\<close>

theorem C7_tie_goes_by_list_order:
  "map_option segments
     (runSJF [newProcess 1 ''P1'' ''c1'' 0 3 None, newProcess 2 ''P2'' ''c2'' 0 3 None])
   = Some [(''P2'', 0, 3), (''P1'', 3, 6)]
   \<and> map_option segments
     (runSJF [newProcess 2 ''P2'' ''c2'' 0 3 None, newProcess 1 ''P1'' ''c1'' 0 3 None])
   = Some [(''P1'', 0, 3), (''P2'', 3, 6)]
   \<and> map_option (map_sum id segments)
     (runSJF2 [newProcess 2 ''P2'' ''c2'' 0 3 None, newProcess 1 ''P1'' ''c1'' 0 3 None])
   = Some (Inr [(''P2'', 0, 3), (''P1'', 3, 6)])
   \<and> map_option (map_sum id segments)
     (runSJF2 [newProcess 1 ''P1'' ''c1'' 0 3 None, newProcess 2 ''P2'' ''c2'' 0 3 None])
   = Some (Inr [(''P1'', 0, 3), (''P2'', 3, 6)])
   \<and> map_option stepwiseMetrics
     (simulateSJF [newProcess 1 ''P1'' ''c1'' 0 3 None, newProcess 2 ''P2'' ''c2'' 0 3 None])
   = Some [(1, 6, 6, 3), (2, 3, 3, 0)]
   \<and> map_option stepwiseMetrics
     (simulateSJF2 [newProcess 1 ''P1'' ''c1'' 0 3 None, newProcess 2 ''P2'' ''c2'' 0 3 None])
   = Some [(1, 6, 6, 3), (2, 3, 3, 0)]"
  by code_simp

text \<open>
  The amended C7 at the start of a run on that input, where both processes are ready: the
  first listing's \<open>runSJF\<close> and the generators run position 1 (P2), the second listing's
  \<open>runSJF\<close> position 0 (P1).
\<close>

theorem C7_sjf_selection_witness:
  "np_ready (initLocals [newProcess 1 ''P1'' ''c1'' 0 3 None, newProcess 2 ''P2'' ''c2'' 0 3 None]) = [0, 1] \<and>
   snp_ready (initLocals [newProcess 1 ''P1'' ''c1'' 0 3 None, newProcess 2 ''P2'' ''c2'' 0 3 None]) = [0, 1] \<and>
   ssjf2_ready (initLocals [newProcess 1 ''P1'' ''c1'' 0 3 None, newProcess 2 ''P2'' ''c2'' 0 3 None]) = [0, 1] \<and>
   np_body sjf_shorter (initLocals [newProcess 1 ''P1'' ''c1'' 0 3 None, newProcess 2 ''P2'' ''c2'' 0 3 None])
     = np_execute 1 (initLocals [newProcess 1 ''P1'' ''c1'' 0 3 None, newProcess 2 ''P2'' ''c2'' 0 3 None]) \<and>
   np2_body keyBurst np_execute
       (initLocals [newProcess 1 ''P1'' ''c1'' 0 3 None, newProcess 2 ''P2'' ''c2'' 0 3 None])
     = np_execute 0 (initLocals [newProcess 1 ''P1'' ''c1'' 0 3 None, newProcess 2 ''P2'' ''c2'' 0 3 None])"
proof -
  let ?ps = "[newProcess 1 ''P1'' ''c1'' 0 3 None, newProcess 2 ''P2'' ''c2'' 0 3 None]"
  let ?s = "initLocals ?ps"
  have r: "np_ready ?s = [0, 1]" "snp_ready ?s = [0, 1]" "ssjf2_ready ?s = [0, 1]"
    by (simp_all add: np_ready_def snp_ready_def ssjf2_ready_def indicesWhere_def initLocals_def
        newProcess_def upt_rec)
  have ne: "np_ready ?s \<noteq> []" using r(1) by simp
  have lp: "localProcesses ?s = ?ps" by (simp add: initLocals_def)
  have tie: "sjfTie ?ps 0 1" "sjfTie ?ps 1 0" by (simp_all add: sjfTie_def newProcess_def)
  note both = C7_sjf_selection[of ?s, THEN conjunct1, rule_format, OF ne]
  from both[THEN conjunct1] obtain a where
    a: "np_body sjf_shorter ?s = np_execute a ?s"
      "sjfLeast (localProcesses ?s) (np_ready ?s) a"
      "\<forall>j\<in>set (np_ready ?s). sjfTie (localProcesses ?s) j a \<longrightarrow> j \<le> a"
    by blast
  from both[THEN conjunct2] obtain b where
    b: "np2_body keyBurst np_execute ?s = np_execute b ?s"
      "sjfLeast (localProcesses ?s) (np_ready ?s) b"
      "\<forall>j\<in>set (np_ready ?s). sjfTie (localProcesses ?s) j b \<longrightarrow> b \<le> j"
    by blast
  from a(2) have am: "a = 0 \<or> a = 1" unfolding r sjfLeast_def by simp
  from b(2) have bm: "b = 0 \<or> b = 1" unfolding r sjfLeast_def by simp
  from a(3) have at: "sjfTie ?ps 1 a \<longrightarrow> 1 \<le> a" unfolding r lp by simp
  from b(3) have bt: "sjfTie ?ps 0 b \<longrightarrow> b \<le> 0" unfolding r lp by simp
  from am at tie have "a = 1" by auto
  moreover from bm bt tie have "b = 0" by auto
  ultimately show ?thesis using a(1) b(1) r by simp
qed

section \<open>The batch engines of the second listing\<close>












section \<open>runRoundRobin of both listings\<close>






lemma rrInv_quantum [simp]: "rrInv ps b pos (s\<lparr>quantumCounter := c\<rparr>) = rrInv ps b pos s"
  by (simp add: rrInv_def)

lemma rrBatchInv_quantum [simp]: "rrBatchInv ps tau (s\<lparr>quantumCounter := c\<rparr>) = rrBatchInv ps tau s"
  by (simp add: rrBatchInv_def)









section \<open>What Round Robin returns at its ceiling\<close>






section \<open>The chart gives each process the time it has run\<close>




end
